theory Spec2Isabelle
  imports Main "HOL-Library.Word" "HOL-Library.AList"
begin

section \<open>Bytes, identifiers and errors\<close>

type_synonym byte = "8 word"
type_synonym bytes = "byte list"

text \<open>
  Address, Hash, TokenTypeId and Gid are fixed-length byte arrays in the source
  (package types, outside the files verified here). They are carried as byte strings;
  \<open>addr.Bytes()\<close> is the identity on this representation.
\<close>

type_synonym Address = bytes
type_synonym Hash = bytes
type_synonym TokenTypeId = bytes
type_synonym Gid = bytes
type_synonym Height = "64 word"

datatype error =
    ErrCanWriteFalse
  | ErrCallDepth
  | ErrQueryLog
  | ErrIO
  | ErrSnappy
  | ErrDeserialize
  | EOF
  | Errorf error
  | Panic

section \<open>Batches of the key-value engine\<close>

text \<open>
  A batch is the ordered sequence of Put and Delete operations issued on it. The engine
  is a finite map from keys to values; writing a batch replays its operations in order.
\<close>

datatype op = Put bytes bytes | Delete bytes

type_synonym batch = "op list"
type_synonym engine = "bytes \<rightharpoonup> bytes"

fun apply_op :: "engine \<Rightarrow> op \<Rightarrow> engine" where
  "apply_op db (Put k v) = db(k \<mapsto> v)"
| "apply_op db (Delete k) = db(k := None)"

fun apply_batch :: "batch \<Rightarrow> engine \<Rightarrow> engine" where
  "apply_batch [] db = db"
| "apply_batch (x # xs) db = apply_batch xs (apply_op db x)"

fun op_key :: "op \<Rightarrow> bytes" where
  "op_key (Put k v) = k"
| "op_key (Delete k) = k"

section \<open>State writer (ledger/chain/state/write.go)\<close>

subsection \<open>Collaborators declared outside the verified files\<close>

text \<open>
  The key constructors of package chain_utils, the constants of package types, the cache
  prefixes of package chain_state and the serializers of the domain objects are not part
  of the verified files. They are parameters of the model, collected in one record.
\<close>

record ContractMeta =
  Gid :: Gid
  CreateBlockHash :: Hash
  MetaRest :: bytes

record VmLog =
  Topics :: "Hash list"
  Data :: bytes

type_synonym VmLogList = "VmLog list"

record Env =
  CreateStorageValueKey :: "Address \<Rightarrow> bytes \<Rightarrow> bytes"
  CreateBalanceKey :: "Address \<Rightarrow> TokenTypeId \<Rightarrow> bytes"
  CreateCodeKey :: "Address \<Rightarrow> bytes"
  CreateContractMetaKey :: "Address \<Rightarrow> bytes"
  CreateGidContractKey :: "Gid \<Rightarrow> Address \<Rightarrow> bytes"
  CreateVmLogListKey :: "Hash \<Rightarrow> bytes"
  CreateCallDepthKey :: "Hash \<Rightarrow> bytes"
  CreateHistoryStorageValueKey :: "Address \<Rightarrow> bytes \<Rightarrow> Height \<Rightarrow> bytes"
  CreateHistoryBalanceKey :: "Address \<Rightarrow> TokenTypeId \<Rightarrow> Height \<Rightarrow> bytes"
  GidContractKeyPrefix :: byte
  GidSize :: nat
  AddressSize :: nat
  BytesToAddress :: "bytes \<Rightarrow> error + Address"
  MetaSerialize :: "ContractMeta \<Rightarrow> error + bytes"
  LogListSerialize :: "VmLogList \<Rightarrow> error + bytes"
  contractAddrPrefix :: bytes
  balancePrefix :: bytes
  snapshotValuePrefix :: bytes
  parseStorageKey :: "bytes \<Rightarrow> bytes"

subsection \<open>Blocks, the VM-state provider and the redo item\<close>

text \<open>
  Only the fields of an account block that write.go and block_db.go read are kept.
  \<open>IsReceiveBlock\<close> is a method of the block type; its result is carried as a field.
  \<open>LogHash\<close> is a pointer in the source: \<open>None\<close> is nil.
\<close>

record AccountBlock =
  Hash :: Hash
  AccountAddress :: Address
  BlockHeight :: Height
  FromBlockHash :: Hash
  LogHash :: "Hash option"
  IsReceiveBlock :: bool
  SendBlockList :: "Hash list"

text \<open>
  \<open>SendBlockList\<close> holds the hashes of the send blocks; the source reads nothing else of them.
  Go maps are association lists, iterated in list order. A byte slice that the source
  tests against nil is an option.
\<close>

record VmDb =
  CanWrite :: bool
  GetUnsavedStorage :: "(bytes \<times> bytes) list"
  GetUnsavedBalanceMap :: "(TokenTypeId \<times> int) list"
  GetUnsavedContractCode :: "bytes option"
  GetUnsavedContractMeta :: "(Address \<times> ContractMeta) list"
  GetLogList :: VmLogList
  GetCallDepth :: "Hash \<Rightarrow> error + 16 word"

record VmAccountBlock =
  AccountBlock :: AccountBlock
  VmDb :: VmDb

record LogItem =
  Storage :: "(bytes \<times> bytes) list"
  BalanceMap :: "(TokenTypeId \<times> int) list"
  Code :: "bytes option"
  ContractMeta :: "(Address \<times> bytes) list"
  VmLogList :: "(Hash \<times> bytes) list"
  CallDepth :: "(Hash \<times> 16 word) list"
  Height :: Height

definition empty_LogItem :: LogItem where
  "empty_LogItem = \<lparr>Storage = [], BalanceMap = [], Code = None, ContractMeta = [],
     VmLogList = [], CallDepth = [], Height = 0\<rparr>"

text \<open>
  The redo log manager keeps, per address, the redo items of the height not yet confirmed
  (\<open>SnapshotLog\<close> is \<open>map[Address][]LogItem\<close>).
\<close>

type_synonym SnapshotLog = "(Address \<times> LogItem list) list"

record SnapshotBlock =
  SbHash :: Hash
  SbHeight :: Height

text \<open>
  The state database: the pending buffer of the staged store, the redo log manager
  (the buffer of the current height, the log of the height confirmed last, and whether its
  backing storage fails), the read cache, the logging and caching policies, and the
  notifications sent to the round cache.
\<close>

record StateDB =
  store_pending :: batch
  redo_logs :: SnapshotLog
  redo_snapshot :: "(Height \<times> SnapshotLog) option"
  redo_fault :: bool
  cache :: "bytes \<rightharpoonup> bytes"
  vmLogAll :: bool
  vmLogWhiteListSet :: "Address set"
  shouldCacheContractData :: "Address \<Rightarrow> bool"
  roundCache :: "(SnapshotBlock \<times> SnapshotLog) list"

subsection \<open>Go library functions used by the writer\<close>

text \<open>\<open>big.Int.Bytes\<close>: the absolute value, big-endian, without leading zeros.\<close>

function nat_be :: "nat \<Rightarrow> bytes" where
  "nat_be n = (if n = 0 then [] else nat_be (n div 256) @ [of_nat (n mod 256)])"
  by pat_completeness auto
termination
  by (relation "measure id") auto

declare nat_be.simps [simp del]

definition big_Bytes :: "int \<Rightarrow> bytes" where
  "big_Bytes x = nat_be (nat \<bar>x\<bar>)"

text \<open>\<open>binary.BigEndian.PutUint16\<close> on a fresh two-byte slice.\<close>

definition PutUint16 :: "16 word \<Rightarrow> bytes" where
  "PutUint16 v = [ucast (drop_bit 8 v), ucast v]"

text \<open>\<open>len(s)\<close> of a slice that may be nil.\<close>

definition len_opt :: "bytes option \<Rightarrow> nat" where
  "len_opt s = (case s of None \<Rightarrow> 0 | Some b \<Rightarrow> length b)"

subsection \<open>Store and redo log manager as the writer sees them\<close>

text \<open>
  Modelled from the spec: the staged store (package chain_db) is not among the verified
  files. "All writes land in the Staged KV Store's pending buffer via write":
  WriteAccountBlock, WriteAccountBlockByHash and WriteSnapshot append the batch they are
  given to the pending buffer.
\<close>

definition store_write :: "batch \<Rightarrow> StateDB \<Rightarrow> StateDB" where
  "store_write b sDB = sDB\<lparr>store_pending := store_pending sDB @ b\<rparr>"

text \<open>The redo items buffered under an address; none when the map has no entry.\<close>

definition logs_of :: "SnapshotLog \<Rightarrow> Address \<Rightarrow> LogItem list" where
  "logs_of l addr = (case map_of l addr of None \<Rightarrow> [] | Some items \<Rightarrow> items)"

text \<open>
  Modelled from the spec: the redo log manager is not among the verified files. addLog
  "appends to the in-memory buffer keyed by the current (not-yet-confirmed) height".
\<close>

definition AddLog :: "Address \<Rightarrow> LogItem \<Rightarrow> StateDB \<Rightarrow> StateDB" where
  "AddLog addr item sDB =
     sDB\<lparr>redo_logs := AList.update addr (logs_of (redo_logs sDB) addr @ [item]) (redo_logs sDB)\<rparr>"



subsection \<open>Helpers of write.go\<close>

definition writeContractMeta :: "Env \<Rightarrow> bytes \<Rightarrow> bytes \<Rightarrow> batch \<times> StateDB \<Rightarrow> batch \<times> StateDB" where
  "writeContractMeta E key val bs =
     (fst bs @ [Put key val],
      (snd bs)\<lparr>cache := (cache (snd bs))(contractAddrPrefix E @ key \<mapsto> val)\<rparr>)"

definition writeBalance :: "Env \<Rightarrow> bytes \<Rightarrow> bytes \<Rightarrow> batch \<times> StateDB \<Rightarrow> batch \<times> StateDB" where
  "writeBalance E key val bs =
     (fst bs @ [Put key val],
      (snd bs)\<lparr>cache := (cache (snd bs))(balancePrefix E @ key \<mapsto> val)\<rparr>)"

definition canWriteVmLog :: "StateDB \<Rightarrow> Address \<Rightarrow> bool" where
  "canWriteVmLog sDB addr = (if vmLogAll sDB then True else addr \<in> vmLogWhiteListSet sDB)"

subsection \<open>StateDB.Write\<close>

text \<open>The loop over the unsaved storage (lines 31-38).\<close>

fun write_storage :: "Env \<Rightarrow> Address \<Rightarrow> (bytes \<times> bytes) list \<Rightarrow> batch \<Rightarrow> batch" where
  "write_storage E addr [] b = b"
| "write_storage E addr (kv # kvs) b =
     write_storage E addr kvs
       (if length (snd kv) \<le> 0
        then b @ [Delete (CreateStorageValueKey E addr (fst kv))]
        else b @ [Put (CreateStorageValueKey E addr (fst kv)) (snd kv)])"

text \<open>The loop over the unsaved balances (lines 46-50); the redo map is filled on the way.\<close>

fun write_balances ::
  "Env \<Rightarrow> Address \<Rightarrow> (TokenTypeId \<times> int) list \<Rightarrow> (batch \<times> StateDB) \<times> LogItem
     \<Rightarrow> (batch \<times> StateDB) \<times> LogItem" where
  "write_balances E addr [] st = st"
| "write_balances E addr (tb # tbs) st =
     write_balances E addr tbs
       (writeBalance E (CreateBalanceKey E addr (fst tb)) (big_Bytes (snd tb)) (fst st),
        (snd st)\<lparr>BalanceMap := AList.update (fst tb) (snd tb) (BalanceMap (snd st))\<rparr>)"

text \<open>
  \<open>metaBytes, _ := meta.Serialize()\<close> (line 74): the error is dropped by the source, the
  bytes are then nil.
\<close>

definition serialize_meta :: "Env \<Rightarrow> ContractMeta \<Rightarrow> bytes" where
  "serialize_meta E meta = (case MetaSerialize E meta of Inl e \<Rightarrow> [] | Inr b \<Rightarrow> b)"

text \<open>The loop over the unsaved contract metadata (lines 66-81).\<close>

fun write_metas ::
  "Env \<Rightarrow> Hash \<Rightarrow> (Address \<times> ContractMeta) list \<Rightarrow> (batch \<times> StateDB) \<times> LogItem
     \<Rightarrow> (batch \<times> StateDB) \<times> LogItem" where
  "write_metas E h [] st = st"
| "write_metas E h (am # ams) st =
     (let addr = fst am;
          meta = (snd am)\<lparr>CreateBlockHash := h\<rparr>;
          contractKey = CreateContractMetaKey E addr;
          gidContractKey = CreateGidContractKey E (Gid meta) addr;
          metaBytes = serialize_meta E meta;
          bs = writeContractMeta E contractKey metaBytes (fst st);
          bs' = (fst bs @ [Put gidContractKey []], snd bs)
      in write_metas E h ams
           (bs', (snd st)\<lparr>ContractMeta := AList.update addr metaBytes (ContractMeta (snd st))\<rparr>))"

text \<open>The loop over the send blocks (lines 109-112).\<close>

fun write_depths ::
  "Env \<Rightarrow> 16 word \<Rightarrow> Hash list \<Rightarrow> batch \<times> LogItem \<Rightarrow> batch \<times> LogItem" where
  "write_depths E d [] st = st"
| "write_depths E d (h # hs) st =
     write_depths E d hs
       (fst st @ [Put (CreateCallDepthKey E h) (PutUint16 d)],
        (snd st)\<lparr>CallDepth := AList.update h d (CallDepth (snd st))\<rparr>)"

text \<open>
  The vm log step (lines 86-95) and the call depth step (lines 98-114); each may return
  the error of the provider.
\<close>

definition write_vmlog ::
  "Env \<Rightarrow> VmAccountBlock \<Rightarrow> (batch \<times> StateDB) \<times> LogItem
     \<Rightarrow> error + ((batch \<times> StateDB) \<times> LogItem)" where
  "write_vmlog E block st =
     (let accountBlock = AccountBlock block; sDB = snd (fst st) in
      case LogHash accountBlock of
        None \<Rightarrow> Inr st
      | Some lh \<Rightarrow>
          if canWriteVmLog sDB (AccountAddress accountBlock) then
            (case LogListSerialize E (GetLogList (VmDb block)) of
               Inl err \<Rightarrow> Inl err
             | Inr bs \<Rightarrow>
                 Inr ((fst (fst st) @ [Put (CreateVmLogListKey E lh) bs], sDB),
                      (snd st)\<lparr>VmLogList := [(lh, bs)]\<rparr>))
          else Inr st)"

definition write_calldepth ::
  "Env \<Rightarrow> VmAccountBlock \<Rightarrow> (batch \<times> StateDB) \<times> LogItem
     \<Rightarrow> error + ((batch \<times> StateDB) \<times> LogItem)" where
  "write_calldepth E block st =
     (let accountBlock = AccountBlock block in
      if IsReceiveBlock accountBlock \<and> length (SendBlockList accountBlock) > 0 then
        (case GetCallDepth (VmDb block) (FromBlockHash accountBlock) of
           Inl err \<Rightarrow> Inl err
         | Inr callDepth \<Rightarrow>
             (let r = write_depths E (callDepth + 1) (SendBlockList accountBlock)
                        (fst (fst st), (snd st)\<lparr>CallDepth := []\<rparr>)
              in Inr ((fst r, snd (fst st)), snd r)))
      else Inr st)"

text \<open>
  The steps of Write before the first error exit after the precondition: storage,
  balances, code and contract metadata (lines 28-83).
\<close>

definition write_prefix :: "Env \<Rightarrow> VmAccountBlock \<Rightarrow> StateDB \<Rightarrow> (batch \<times> StateDB) \<times> LogItem" where
  "write_prefix E block sDB =
     (let vmDb = VmDb block;
          accountBlock = AccountBlock block;
          addr = AccountAddress accountBlock;
          unsavedStorage = GetUnsavedStorage vmDb;
          batch1 = write_storage E addr unsavedStorage [];
          redoLog1 = empty_LogItem\<lparr>Storage := unsavedStorage\<rparr>;
          st2 = write_balances E addr (GetUnsavedBalanceMap vmDb) ((batch1, sDB), redoLog1);
          st3 = (case GetUnsavedContractCode vmDb of
                   None \<Rightarrow> st2
                 | Some unsavedCode \<Rightarrow>
                     ((fst (fst st2) @ [Put (CreateCodeKey E addr) unsavedCode], snd (fst st2)),
                      (snd st2)\<lparr>Code := Some unsavedCode\<rparr>))
      in if length (GetUnsavedContractMeta vmDb) > 0
         then write_metas E (Hash accountBlock) (GetUnsavedContractMeta vmDb) st3
         else st3)"

text \<open>
  Write mutates the state database and returns an error or nil; the model returns the
  error (\<open>None\<close> is nil) together with the state database the caller is left with.
\<close>

definition Write :: "Env \<Rightarrow> VmAccountBlock \<Rightarrow> StateDB \<Rightarrow> error option \<times> StateDB" where
  "Write E block sDB =
     (if \<not> CanWrite (VmDb block) then (Some ErrCanWriteFalse, sDB)
      else
        case write_vmlog E block (write_prefix E block sDB) of
          Inl err \<Rightarrow> (Some err, snd (fst (write_prefix E block sDB)))
        | Inr st4 \<Rightarrow>
            (case write_calldepth E block st4 of
               Inl err \<Rightarrow> (Some err, snd (fst st4))
             | Inr st5 \<Rightarrow>
                 (let accountBlock = AccountBlock block;
                      redoLog = (snd st5)\<lparr>Height := BlockHeight accountBlock\<rparr>
                  in (None, store_write (fst (fst st5))
                              (AddLog (AccountAddress accountBlock) redoLog (snd (fst st5)))))))"

subsection \<open>StateDB.WriteByRedo\<close>







subsection \<open>StateDB.InsertSnapshotBlock\<close>













section \<open>Block log (ledger/chain/block/block_db.go)\<close>

subsection \<open>Location and segment store\<close>

record Location =
  FileId :: nat
  Offset :: nat

text \<open>
  Modelled from the spec: the file manager (package chain_file_manager) is not among the
  verified files. Its state is the capacity of a segment, the records written so far with
  the Location of each, the write head, and, since "any I/O error on the underlying segment
  files is fatal to the calling operation", the numbers of the writes the device rejects.
\<close>

record FileManager =
  fm_fileSize :: nat
  fm_log :: "(Location \<times> bytes) list"
  fm_latest :: Location
  fm_faults :: "nat set"

text \<open>
  Modelled from the spec: "data is stored in fixed-capacity segments; a write that would
  exceed the current segment's capacity starts a new segment". A record occupies a length
  frame of four bytes (the frame ReadRange rebuilds at lines 214-217) and its bytes.
\<close>

definition fm_place :: "FileManager \<Rightarrow> bytes \<Rightarrow> Location" where
  "fm_place fm buf =
     (if Offset (fm_latest fm) + 4 + length buf > fm_fileSize fm \<and> Offset (fm_latest fm) > 0
      then \<lparr>FileId = FileId (fm_latest fm) + 1, Offset = 0\<rparr>
      else fm_latest fm)"

text \<open>
  Modelled from the spec: write(bytes) -> Location. "A write returns the Location of its
  first byte."
\<close>

definition fm_Write :: "FileManager \<Rightarrow> bytes \<Rightarrow> error + (Location \<times> FileManager)" where
  "fm_Write fm buf =
     (if length (fm_log fm) \<in> fm_faults fm then Inl ErrIO
      else
        (let loc = fm_place fm buf
         in Inr (loc, fm\<lparr>fm_log := fm_log fm @ [(loc, buf)],
                          fm_latest := loc\<lparr>Offset := Offset loc + 4 + length buf\<rparr>\<rparr>)))"

text \<open>
  Modelled from the spec: read(Location) -> (bytes, nextLocation). The next Location is
  that of the record written after the one read, or the write head. "Reads beyond the last
  fully-written record fail with an end-of-data condition."
\<close>

fun fm_lookup :: "(Location \<times> bytes) list \<Rightarrow> Location \<Rightarrow> Location \<Rightarrow> (bytes \<times> Location) option" where
  "fm_lookup [] loc latest = None"
| "fm_lookup (r # rs) loc latest =
     (if fst r = loc then Some (snd r, (case rs of [] \<Rightarrow> latest | r' # _ \<Rightarrow> fst r'))
      else fm_lookup rs loc latest)"

text \<open>Modelled from the spec: read(Location), on the records of the file manager.\<close>

definition fm_Read :: "FileManager \<Rightarrow> Location \<Rightarrow> error + (bytes \<times> Location)" where
  "fm_Read fm loc =
     (case fm_lookup (fm_log fm) loc (fm_latest fm) of None \<Rightarrow> Inl EOF | Some r \<Rightarrow> Inr r)"

text \<open>Locations are ordered by segment, then by offset.\<close>

definition loc_lt :: "Location \<Rightarrow> Location \<Rightarrow> bool" where
  "loc_lt a b = (FileId a < FileId b \<or> (FileId a = FileId b \<and> Offset a < Offset b))"

text \<open>
  Locations grow in write order and lie below the write head: the invariant of a
  file manager that has only been written to.
\<close>

definition fm_wf :: "FileManager \<Rightarrow> bool" where
  "fm_wf fm = (sorted_wrt loc_lt (map fst (fm_log fm))
     \<and> list_all (\<lambda>l. loc_lt l (fm_latest fm)) (map fst (fm_log fm)))"

subsection \<open>Block records\<close>

text \<open>
  The type tags, the compression codec and the serializers of the two block types are
  declared outside the verified files; they are parameters.
\<close>

record Codec =
  BlockTypeAccountBlock :: byte
  BlockTypeSnapshotBlock :: byte
  snappy_Encode :: "bytes \<Rightarrow> bytes"
  snappy_Decode :: "bytes \<Rightarrow> error + bytes"
  ab_Serialize :: "AccountBlock \<Rightarrow> error + bytes"
  ab_Deserialize :: "bytes \<Rightarrow> error + AccountBlock"
  sb_Serialize :: "SnapshotBlock \<Rightarrow> error + bytes"
  sb_Deserialize :: "bytes \<Rightarrow> error + SnapshotBlock"

record SnapshotChunk =
  SnapshotBlock :: "SnapshotBlock option"
  AccountBlocks :: "AccountBlock list"

text \<open>
  Modelled from the spec: makeWriteBytes is defined outside the verified files.
  "Record format: [type: 1 byte][compressed payload]".
\<close>

definition makeWriteBytes :: "Codec \<Rightarrow> byte \<Rightarrow> bytes \<Rightarrow> bytes" where
  "makeWriteBytes C blockType buf = blockType # snappy_Encode C buf"

subsection \<open>BlockDB.Write\<close>

text \<open>
  The loop over the account blocks (lines 84-95). Write returns its results or an error
  and leaves the file manager as the writes done so far have made it.
\<close>

fun write_account_blocks ::
  "Codec \<Rightarrow> AccountBlock list \<Rightarrow> (Hash \<rightharpoonup> Location) \<times> FileManager
     \<Rightarrow> error option \<times> ((Hash \<rightharpoonup> Location) \<times> FileManager)" where
  "write_account_blocks C [] st = (None, st)"
| "write_account_blocks C (accountBlock # rest) st =
     (case ab_Serialize C accountBlock of
        Inl err \<Rightarrow> (Some (Errorf err), st)
      | Inr buf \<Rightarrow>
          (case fm_Write (snd st) (makeWriteBytes C (BlockTypeAccountBlock C) buf) of
             Inl err \<Rightarrow> (Some (Errorf err), st)
           | Inr lf \<Rightarrow>
               write_account_blocks C rest ((fst st)(Hash accountBlock \<mapsto> fst lf), snd lf)))"

text \<open>A chunk without a snapshot block makes Write call Serialize on nil, which panics.\<close>

definition BlockDB_Write ::
  "Codec \<Rightarrow> SnapshotChunk \<Rightarrow> FileManager
     \<Rightarrow> (error + ((Hash \<rightharpoonup> Location) \<times> Location)) \<times> FileManager" where
  "BlockDB_Write C ss fm =
     (case write_account_blocks C (AccountBlocks ss) (Map.empty, fm) of
        (Some err, st) \<Rightarrow> (Inl err, snd st)
      | (None, st) \<Rightarrow>
          (case SnapshotBlock ss of
             None \<Rightarrow> (Inl Panic, snd st)
           | Some sb \<Rightarrow>
               (case sb_Serialize C sb of
                  Inl err \<Rightarrow> (Inl (Errorf err), snd st)
                | Inr buf \<Rightarrow>
                    (case fm_Write (snd st) (makeWriteBytes C (BlockTypeSnapshotBlock C) buf) of
                       Inl err \<Rightarrow> (Inl (Errorf err), snd st)
                     | Inr lf \<Rightarrow> (Inr (fst st, fst lf), snd lf)))))"

subsection \<open>BlockDB.ReadUnit\<close>

definition ReadUnit ::
  "Codec \<Rightarrow> FileManager \<Rightarrow> Location
     \<Rightarrow> error + (SnapshotBlock option \<times> AccountBlock option \<times> Location)" where
  "ReadUnit C fm location =
     (case fm_Read fm location of
        Inl err \<Rightarrow> Inl err
      | Inr bn \<Rightarrow>
          (let buf = fst bn; nextLocation = snd bn in
           if length buf \<le> 0 then Inr (None, None, nextLocation)
           else
             (case snappy_Decode C (drop 1 buf) of
                Inl err \<Rightarrow> Inl err
              | Inr sBuf \<Rightarrow>
                  if hd buf = BlockTypeSnapshotBlock C then
                    (case sb_Deserialize C sBuf of
                       Inl err \<Rightarrow> Inl err
                     | Inr sb \<Rightarrow> Inr (Some sb, None, nextLocation))
                  else if hd buf = BlockTypeAccountBlock C then
                    (case ab_Deserialize C sBuf of
                       Inl err \<Rightarrow> Inl err
                     | Inr ab \<Rightarrow> Inr (None, Some ab, nextLocation))
                  else Inr (None, None, nextLocation))))"

text \<open>
  Writing a list of chunks one after the other, and reading a number of units one after
  the other, each from the location the previous read returned.
\<close>

datatype block = Snapshot SnapshotBlock | Account AccountBlock

fun write_chunks :: "Codec \<Rightarrow> SnapshotChunk list \<Rightarrow> FileManager \<Rightarrow> error + FileManager" where
  "write_chunks C [] fm = Inr fm"
| "write_chunks C (ss # rest) fm =
     (case BlockDB_Write C ss fm of
        (Inl err, fm') \<Rightarrow> Inl err
      | (Inr r, fm') \<Rightarrow> write_chunks C rest fm')"

fun read_units :: "Codec \<Rightarrow> FileManager \<Rightarrow> Location \<Rightarrow> nat \<Rightarrow> error + block list" where
  "read_units C fm location 0 = Inr []"
| "read_units C fm location (Suc n) =
     (case ReadUnit C fm location of
        Inl err \<Rightarrow> Inl err
      | Inr (Some sb, ab, nextLocation) \<Rightarrow>
          (case read_units C fm nextLocation n of
             Inl err \<Rightarrow> Inl err | Inr bs \<Rightarrow> Inr (Snapshot sb # bs))
      | Inr (None, Some ab, nextLocation) \<Rightarrow>
          (case read_units C fm nextLocation n of
             Inl err \<Rightarrow> Inl err | Inr bs \<Rightarrow> Inr (Account ab # bs))
      | Inr (None, None, nextLocation) \<Rightarrow> Inl EOF)"

definition chunk_blocks :: "SnapshotChunk \<Rightarrow> block list" where
  "chunk_blocks ss =
     map Account (AccountBlocks ss)
       @ (case SnapshotBlock ss of None \<Rightarrow> [] | Some sb \<Rightarrow> [Snapshot sb])"

subsection \<open>BlockDB.ReadRange and BlockDB.PrepareRollback\<close>

text \<open>
  Both functions start a producer that scans the file manager and feeds a parser, and
  consume the parser's iterator. Parser and file scan are outside the verified files: the
  units the iterator delivers, in order, and the terminal error of the parser
  (\<open>bfp.Error()\<close>, \<open>None\<close> is nil) are the inputs of the model. The loop bodies of
  ReadRange (lines 235-261) and PrepareRollback (lines 301-328) are the same text.
\<close>

record BlockUnit =
  BlockType :: byte
  Buffer :: bytes

fun chunk_loop ::
  "Codec \<Rightarrow> BlockUnit list \<Rightarrow> SnapshotChunk list \<times> SnapshotChunk option
     \<Rightarrow> error + (SnapshotChunk list \<times> SnapshotChunk option)" where
  "chunk_loop C [] st = Inr st"
| "chunk_loop C (buf # rest) st =
     (let segList = fst st;
          seg = (case snd st of
                   None \<Rightarrow> \<lparr>SnapshotBlock = None, AccountBlocks = []\<rparr>
                 | Some s \<Rightarrow> s)
      in case snappy_Decode C (Buffer buf) of
           Inl err \<Rightarrow> Inl err
         | Inr sBuf \<Rightarrow>
             if BlockType buf = BlockTypeSnapshotBlock C then
               (case sb_Deserialize C sBuf of
                  Inl err \<Rightarrow> Inl err
                | Inr sb \<Rightarrow>
                    chunk_loop C rest (segList @ [seg\<lparr>SnapshotBlock := Some sb\<rparr>], None))
             else if BlockType buf = BlockTypeAccountBlock C then
               (case ab_Deserialize C sBuf of
                  Inl err \<Rightarrow> Inl err
                | Inr ab \<Rightarrow>
                    chunk_loop C rest
                      (segList, Some (seg\<lparr>AccountBlocks := AccountBlocks seg @ [ab]\<rparr>)))
             else chunk_loop C rest (segList, Some seg))"

definition ReadRange :: "Codec \<Rightarrow> BlockUnit list \<Rightarrow> error option \<Rightarrow> error + SnapshotChunk list" where
  "ReadRange C units bfpError =
     (case chunk_loop C units ([], None) of
        Inl err \<Rightarrow> Inl err
      | Inr st \<Rightarrow>
          (case bfpError of
             Some err \<Rightarrow> Inl err
           | None \<Rightarrow> Inr (case snd st of None \<Rightarrow> fst st | Some seg \<Rightarrow> fst st @ [seg])))"

definition PrepareRollback ::
  "Codec \<Rightarrow> BlockUnit list \<Rightarrow> error option \<Rightarrow> error + SnapshotChunk list" where
  "PrepareRollback C units bfpError =
     (case chunk_loop C units ([], None) of
        Inl err \<Rightarrow> Inl err
      | Inr st \<Rightarrow>
          (let segList = (case snd st of None \<Rightarrow> fst st | Some seg \<Rightarrow> fst st @ [seg])
           in case bfpError of Some err \<Rightarrow> Inl err | None \<Rightarrow> Inr segList))"

text \<open>A unit that carries the tag of an account block and decodes to a given account block.\<close>

definition account_unit_of :: "Codec \<Rightarrow> BlockUnit \<Rightarrow> AccountBlock \<Rightarrow> bool" where
  "account_unit_of C u ab =
     (BlockType u = BlockTypeAccountBlock C
    \<and> (case snappy_Decode C (Buffer u) of
          Inl err \<Rightarrow> False
        | Inr sBuf \<Rightarrow> ab_Deserialize C sBuf = Inr ab))"

section \<open>Staged key-value store\<close>

text \<open>
  Modelled from the spec: the store (package chain_db) is not among the verified files;
  only its tests are. Its state is the pending buffer \<open>snapshotBatch\<close>, the flushing
  buffer \<open>flushingBatch\<close> and the engine \<open>db\<close>, as the tests name them, and
  whether the engine rejects a batch.
\<close>

record Store =
  snapshotBatch :: batch
  flushingBatch :: batch
  db :: engine
  db_fault :: bool

text \<open>
  The encoding of a batch (\<open>Dump\<close> and \<open>Load\<close> in the tests) belongs to the engine
  and is a parameter.
\<close>

record BatchCodec =
  Dump :: "batch \<Rightarrow> bytes"
  Load :: "bytes \<Rightarrow> error + batch"

text \<open>
  Modelled from the spec: the engine applies a batch "atomically (as one engine-level
  batch)" or "rejects the batch" with an I/O error.
\<close>

definition db_Write :: "Store \<Rightarrow> batch \<Rightarrow> error option \<times> Store" where
  "db_Write st b =
     (if db_fault st then (Some ErrIO, st) else (None, st\<lparr>db := apply_batch b (db st)\<rparr>))"

text \<open>Modelled from the spec: write(batch) "merges batch into the pending buffer".\<close>

definition WriteDirectly :: "batch \<Rightarrow> Store \<Rightarrow> Store" where
  "WriteDirectly b st = st\<lparr>snapshotBatch := snapshotBatch st @ b\<rparr>"

text \<open>
  Modelled from the spec: prepare "moves the entire current pending buffer into the
  flushing buffer, resets the pending buffer to empty".
\<close>

definition Prepare :: "Store \<Rightarrow> Store" where
  "Prepare st = st\<lparr>flushingBatch := snapshotBatch st, snapshotBatch := []\<rparr>"

text \<open>
  Modelled from the spec: cancelPrepare "merges the flushing buffer back in front of the
  pending buffer, clears the flushing buffer".
\<close>

definition CancelPrepare :: "Store \<Rightarrow> Store" where
  "CancelPrepare st =
     st\<lparr>snapshotBatch := flushingBatch st @ snapshotBatch st, flushingBatch := []\<rparr>"

text \<open>
  Modelled from the spec: redoLog "serializes the flushing buffer for use as a write-ahead
  record; does not mutate state".
\<close>

definition RedoLog :: "BatchCodec \<Rightarrow> Store \<Rightarrow> bytes" where
  "RedoLog D st = Dump D (flushingBatch st)"

text \<open>
  Modelled from the spec: commit "applies the flushing buffer to the underlying KV engine
  atomically; fails with an I/O error if the engine rejects the batch".
\<close>

definition Commit :: "Store \<Rightarrow> error option \<times> Store" where
  "Commit st = db_Write st (flushingBatch st)"

text \<open>Modelled from the spec: afterCommit "clears the flushing buffer".\<close>

definition AfterCommit :: "Store \<Rightarrow> Store" where
  "AfterCommit st = st\<lparr>flushingBatch := []\<rparr>"

text \<open>
  Modelled from the spec: patchRedoLog "deserializes a previously produced redo-log payload
  and applies it directly to the underlying engine, bypassing the staging buffers".
\<close>

definition PatchRedoLog :: "BatchCodec \<Rightarrow> bytes \<Rightarrow> Store \<Rightarrow> error option \<times> Store" where
  "PatchRedoLog D redoLog st =
     (case Load D redoLog of
        Inl err \<Rightarrow> (Some err, st)
      | Inr b \<Rightarrow> db_Write st b)"

text \<open>A sequence of writes, one after the other.\<close>

fun write_all :: "batch list \<Rightarrow> Store \<Rightarrow> Store" where
  "write_all [] st = st"
| "write_all (b # bs) st = write_all bs (WriteDirectly b st)"

section \<open>Notions used in the statements\<close>

text \<open>
  The operations handed to the store between two states of the state database, and the
  redo item recorded last under an address.
\<close>

definition written :: "StateDB \<Rightarrow> StateDB \<Rightarrow> batch" where
  "written sDB sDB' = drop (length (store_pending sDB)) (store_pending sDB')"

definition recorded :: "StateDB \<Rightarrow> Address \<Rightarrow> LogItem option" where
  "recorded sDB addr =
     (case logs_of (redo_logs sDB) addr of [] \<Rightarrow> None | i # is \<Rightarrow> Some (last (i # is)))"

text \<open>The operation each loop of the writer issues for one entry.\<close>

definition storage_op :: "Env \<Rightarrow> Address \<Rightarrow> bytes \<times> bytes \<Rightarrow> op" where
  "storage_op E addr kv =
     (if snd kv = [] then Delete (CreateStorageValueKey E addr (fst kv))
      else Put (CreateStorageValueKey E addr (fst kv)) (snd kv))"

definition balance_op :: "Env \<Rightarrow> Address \<Rightarrow> TokenTypeId \<times> int \<Rightarrow> op" where
  "balance_op E addr tb = Put (CreateBalanceKey E addr (fst tb)) (big_Bytes (snd tb))"

definition meta_bytes :: "Env \<Rightarrow> Hash \<Rightarrow> ContractMeta \<Rightarrow> bytes" where
  "meta_bytes E h meta = serialize_meta E (meta\<lparr>CreateBlockHash := h\<rparr>)"

definition meta_ops :: "Env \<Rightarrow> Hash \<Rightarrow> Address \<times> ContractMeta \<Rightarrow> op list" where
  "meta_ops E h am =
     [Put (CreateContractMetaKey E (fst am)) (meta_bytes E h (snd am)),
      Put (CreateGidContractKey E (Gid (snd am)) (fst am)) []]"

definition depth_op :: "Env \<Rightarrow> 16 word \<Rightarrow> Hash \<Rightarrow> op" where
  "depth_op E d h = Put (CreateCallDepthKey E h) (PutUint16 d)"

text \<open>Filling a Go map entry by entry.\<close>

fun updates :: "('k \<times> 'v) list \<Rightarrow> ('k \<times> 'v) list \<Rightarrow> ('k \<times> 'v) list" where
  "updates [] m = m"
| "updates (kv # kvs) m = updates kvs (AList.update (fst kv) (snd kv) m)"

text \<open>
  The batch and the redo item of a successful Write, written out: the operations of the
  storage, balance, code and metadata steps, then the vm log entry and the call depths.
\<close>

definition prefix_batch :: "Env \<Rightarrow> VmAccountBlock \<Rightarrow> batch" where
  "prefix_batch E block =
     map (storage_op E (AccountAddress (AccountBlock block))) (GetUnsavedStorage (VmDb block))
     @ map (balance_op E (AccountAddress (AccountBlock block))) (GetUnsavedBalanceMap (VmDb block))
     @ (case GetUnsavedContractCode (VmDb block) of None \<Rightarrow> []
        | Some code \<Rightarrow> [Put (CreateCodeKey E (AccountAddress (AccountBlock block))) code])
     @ concat (map (meta_ops E (Hash (AccountBlock block))) (GetUnsavedContractMeta (VmDb block)))"

definition prefix_redo :: "Env \<Rightarrow> VmAccountBlock \<Rightarrow> LogItem" where
  "prefix_redo E block =
     \<lparr>Storage = GetUnsavedStorage (VmDb block),
      BalanceMap = updates (GetUnsavedBalanceMap (VmDb block)) [],
      Code = GetUnsavedContractCode (VmDb block),
      ContractMeta = updates (map (\<lambda>am. (fst am, meta_bytes E (Hash (AccountBlock block)) (snd am)))
                        (GetUnsavedContractMeta (VmDb block))) [],
      VmLogList = [], CallDepth = [], Height = 0\<rparr>"

definition vmlog_entry :: "Env \<Rightarrow> VmAccountBlock \<Rightarrow> StateDB \<Rightarrow> (Hash \<times> bytes) list" where
  "vmlog_entry E block sDB =
     (case LogHash (AccountBlock block) of
        None \<Rightarrow> []
      | Some lh \<Rightarrow>
          if canWriteVmLog sDB (AccountAddress (AccountBlock block)) then
            (case LogListSerialize E (GetLogList (VmDb block)) of
               Inl err \<Rightarrow> [] | Inr bs \<Rightarrow> [(lh, bs)])
          else [])"

definition depth_entries :: "VmAccountBlock \<Rightarrow> (Hash \<times> 16 word) list" where
  "depth_entries block =
     (if IsReceiveBlock (AccountBlock block) \<and> SendBlockList (AccountBlock block) \<noteq> [] then
        (case GetCallDepth (VmDb block) (FromBlockHash (AccountBlock block)) of
           Inl err \<Rightarrow> []
         | Inr d \<Rightarrow> map (\<lambda>h. (h, d + 1)) (SendBlockList (AccountBlock block)))
      else [])"

definition Write_batch :: "Env \<Rightarrow> VmAccountBlock \<Rightarrow> StateDB \<Rightarrow> batch" where
  "Write_batch E block sDB =
     prefix_batch E block
     @ map (\<lambda>hb. Put (CreateVmLogListKey E (fst hb)) (snd hb)) (vmlog_entry E block sDB)
     @ map (\<lambda>hd. depth_op E (snd hd) (fst hd)) (depth_entries block)"

definition Write_redo :: "Env \<Rightarrow> VmAccountBlock \<Rightarrow> StateDB \<Rightarrow> LogItem" where
  "Write_redo E block sDB =
     (prefix_redo E block)\<lparr>VmLogList := vmlog_entry E block sDB,
       CallDepth := updates (depth_entries block) [],
       Height := BlockHeight (AccountBlock block)\<rparr>"

text \<open>The batch of a WriteByRedo that does not panic, written out.\<close>

definition redo_meta_ops :: "Env \<Rightarrow> Address \<times> bytes \<Rightarrow> op list" where
  "redo_meta_ops E am =
     [Put (CreateContractMetaKey E (fst am)) (snd am),
      Put ([GidContractKeyPrefix E] @ fst am @ take (GidSize E) (snd am)) []]"

definition WriteByRedo_batch :: "Env \<Rightarrow> Address \<Rightarrow> LogItem \<Rightarrow> batch" where
  "WriteByRedo_batch E addr redoLog =
     map (storage_op E addr) (Storage redoLog)
     @ map (balance_op E addr) (BalanceMap redoLog)
     @ (if len_opt (Code redoLog) > 0 then [Put (CreateCodeKey E addr) (the (Code redoLog))] else [])
     @ concat (map (redo_meta_ops E) (ContractMeta redoLog))
     @ map (\<lambda>hb. Put (CreateVmLogListKey E (fst hb)) (snd hb)) (VmLogList redoLog)
     @ map (\<lambda>hd. depth_op E (snd hd) (fst hd)) (CallDepth redoLog)"

text \<open>The value of the last pair with a given key in a list of pairs.\<close>

definition last_value :: "('k \<times> 'v) list \<Rightarrow> 'k \<Rightarrow> 'v option" where
  "last_value kvs k = map_of (rev kvs) k"

text \<open>
  Assumptions on the collaborators. The keys of the vm log lists are told apart from each
  other and from the keys of the other categories.
\<close>

definition vmlog_keys_apart :: "Env \<Rightarrow> bool" where
  "vmlog_keys_apart E =
     ((\<forall>h h'. CreateVmLogListKey E h = CreateVmLogListKey E h' \<longrightarrow> h = h')
    \<and> (\<forall>h a k. CreateVmLogListKey E h \<noteq> CreateStorageValueKey E a k)
    \<and> (\<forall>h a t. CreateVmLogListKey E h \<noteq> CreateBalanceKey E a t)
    \<and> (\<forall>h a. CreateVmLogListKey E h \<noteq> CreateCodeKey E a)
    \<and> (\<forall>h a. CreateVmLogListKey E h \<noteq> CreateContractMetaKey E a)
    \<and> (\<forall>h g a. CreateVmLogListKey E h \<noteq> CreateGidContractKey E g a)
    \<and> (\<forall>h h'. CreateVmLogListKey E h \<noteq> CreateCallDepthKey E h'))"







text \<open>The records of a chunk as BlockDB.Write frames them, when serialization succeeds.\<close>

definition ab_record :: "Codec \<Rightarrow> AccountBlock \<Rightarrow> bytes" where
  "ab_record C ab =
     (case ab_Serialize C ab of
        Inl err \<Rightarrow> []
      | Inr buf \<Rightarrow> makeWriteBytes C (BlockTypeAccountBlock C) buf)"

definition sb_record :: "Codec \<Rightarrow> SnapshotBlock \<Rightarrow> bytes" where
  "sb_record C sb =
     (case sb_Serialize C sb of
        Inl err \<Rightarrow> []
      | Inr buf \<Rightarrow> makeWriteBytes C (BlockTypeSnapshotBlock C) buf)"

definition block_record :: "Codec \<Rightarrow> block \<Rightarrow> bytes" where
  "block_record C b = (case b of Account ab \<Rightarrow> ab_record C ab | Snapshot sb \<Rightarrow> sb_record C sb)"

text \<open>Serializing, compressing, decompressing and deserializing a block gives it back.\<close>

definition ab_roundtrip :: "Codec \<Rightarrow> AccountBlock \<Rightarrow> bool" where
  "ab_roundtrip C ab =
     (case ab_Serialize C ab of
        Inl err \<Rightarrow> True
      | Inr buf \<Rightarrow> snappy_Decode C (snappy_Encode C buf) = Inr buf
                    \<and> ab_Deserialize C buf = Inr ab)"

definition sb_roundtrip :: "Codec \<Rightarrow> SnapshotBlock \<Rightarrow> bool" where
  "sb_roundtrip C sb =
     (case sb_Serialize C sb of
        Inl err \<Rightarrow> True
      | Inr buf \<Rightarrow> snappy_Decode C (snappy_Encode C buf) = Inr buf
                    \<and> sb_Deserialize C buf = Inr sb)"

definition block_roundtrip :: "Codec \<Rightarrow> block \<Rightarrow> bool" where
  "block_roundtrip C b =
     (case b of Account ab \<Rightarrow> ab_roundtrip C ab | Snapshot sb \<Rightarrow> sb_roundtrip C sb)"

section \<open>Concrete collaborators for evaluation\<close>

text \<open>
  One instance of each parameter record, on which the model is evaluated: keys are a
  prefix byte followed by their parts, addresses and gids have two bytes.
\<close>

definition sample_Env :: Env where
  "sample_Env = \<lparr>
     CreateStorageValueKey = (\<lambda>a k. [1] @ a @ k),
     CreateBalanceKey = (\<lambda>a t. [3] @ a @ t),
     CreateCodeKey = (\<lambda>a. [5] @ a),
     CreateContractMetaKey = (\<lambda>a. [6] @ a),
     CreateGidContractKey = (\<lambda>g a. [7] @ a @ g),
     CreateVmLogListKey = (\<lambda>h. [8] @ h),
     CreateCallDepthKey = (\<lambda>h. [9] @ h),
     CreateHistoryStorageValueKey = (\<lambda>a k h. [2] @ a @ k @ [ucast h]),
     CreateHistoryBalanceKey = (\<lambda>a t h. [4] @ a @ t @ [ucast h]),
     GidContractKeyPrefix = 7,
     GidSize = 2,
     AddressSize = 2,
     BytesToAddress = (\<lambda>b. if length b = 2 then Inr b else Inl ErrDeserialize),
     MetaSerialize = (\<lambda>m. Inr (Gid m @ CreateBlockHash m @ MetaRest m)),
     LogListSerialize = (\<lambda>l. Inr (concat (map Data l))),
     contractAddrPrefix = [100],
     balancePrefix = [101],
     snapshotValuePrefix = [102],
     parseStorageKey = (\<lambda>key. drop 3 key)\<rparr>"

definition sample_StateDB :: StateDB where
  "sample_StateDB = \<lparr>
     store_pending = [], redo_logs = [], redo_snapshot = None, redo_fault = False,
     cache = Map.empty, vmLogAll = False, vmLogWhiteListSet = {[10, 11]},
     shouldCacheContractData = (\<lambda>a. False), roundCache = []\<rparr>"

definition sample_VmDb :: VmDb where
  "sample_VmDb = \<lparr>
     CanWrite = True,
     GetUnsavedStorage = [([20], [21]), ([22], [])],
     GetUnsavedBalanceMap = [([30], 258)],
     GetUnsavedContractCode = Some [40, 41],
     GetUnsavedContractMeta = [([12, 13], \<lparr>Gid = [50, 51], CreateBlockHash = [], MetaRest = [52]\<rparr>)],
     GetLogList = [\<lparr>Topics = [], Data = [60]\<rparr>],
     GetCallDepth = (\<lambda>h. Inr 255)\<rparr>"

definition sample_AccountBlock :: AccountBlock where
  "sample_AccountBlock = \<lparr>
     Hash = [70], AccountAddress = [10, 11], BlockHeight = 3, FromBlockHash = [71],
     LogHash = Some [72], IsReceiveBlock = True, SendBlockList = [[73], [74]]\<rparr>"

definition sample_block :: VmAccountBlock where
  "sample_block = \<lparr>AccountBlock = sample_AccountBlock, VmDb = sample_VmDb\<rparr>"



definition sample_Codec :: Codec where
  "sample_Codec = \<lparr>
     BlockTypeAccountBlock = 1,
     BlockTypeSnapshotBlock = 2,
     snappy_Encode = (\<lambda>b. of_nat (length b) # b),
     snappy_Decode = (\<lambda>b. case b of [] \<Rightarrow> Inl ErrSnappy
                         | n # r \<Rightarrow> if unat n = length r then Inr r else Inl ErrSnappy),
     ab_Serialize = (\<lambda>ab. Inr (Hash ab)),
     ab_Deserialize = (\<lambda>b. Inr \<lparr>Hash = b, AccountAddress = [], BlockHeight = 0,
        FromBlockHash = [], LogHash = None, IsReceiveBlock = False, SendBlockList = []\<rparr>),
     sb_Serialize = (\<lambda>sb. Inr (SbHash sb)),
     sb_Deserialize = (\<lambda>b. Inr \<lparr>SbHash = b, SbHeight = 0\<rparr>)\<rparr>"

definition sample_ab :: "Hash \<Rightarrow> AccountBlock" where
  "sample_ab h = \<lparr>Hash = h, AccountAddress = [], BlockHeight = 0,
     FromBlockHash = [], LogHash = None, IsReceiveBlock = False, SendBlockList = []\<rparr>"

definition sample_sb :: "Hash \<Rightarrow> SnapshotBlock" where
  "sample_sb h = \<lparr>SbHash = h, SbHeight = 0\<rparr>"

definition sample_chunk :: SnapshotChunk where
  "sample_chunk = \<lparr>SnapshotBlock = Some (sample_sb [90]),
     AccountBlocks = [sample_ab [91], sample_ab [92]]\<rparr>"

definition sample_chunk2 :: SnapshotChunk where
  "sample_chunk2 = \<lparr>SnapshotBlock = Some (sample_sb [93]), AccountBlocks = []\<rparr>"

definition sample_fm :: FileManager where
  "sample_fm = \<lparr>fm_fileSize = 16, fm_log = [], fm_latest = \<lparr>FileId = 1, Offset = 0\<rparr>,
     fm_faults = {}\<rparr>"

fun sample_dump_op :: "op \<Rightarrow> bytes" where
  "sample_dump_op (Put k v) = [1, of_nat (length k)] @ k @ [of_nat (length v)] @ v"
| "sample_dump_op (Delete k) = [2, of_nat (length k)] @ k"

fun sample_load :: "nat \<Rightarrow> bytes \<Rightarrow> error + batch" where
  "sample_load 0 bs = (if bs = [] then Inr [] else Inl ErrDeserialize)"
| "sample_load (Suc n) [] = Inr []"
| "sample_load (Suc n) [t] = Inl ErrDeserialize"
| "sample_load (Suc n) (t # lk # r1) =
     (let k = take (unat lk) r1; r2 = drop (unat lk) r1 in
      if t = 1 then
        (case r2 of
           [] \<Rightarrow> Inl ErrDeserialize
         | lv # r3 \<Rightarrow>
             (case sample_load n (drop (unat lv) r3) of
                Inl err \<Rightarrow> Inl err
              | Inr b \<Rightarrow> Inr (Put k (take (unat lv) r3) # b)))
      else if t = 2 then
        (case sample_load n r2 of Inl err \<Rightarrow> Inl err | Inr b \<Rightarrow> Inr (Delete k # b))
      else Inl ErrDeserialize)"

definition sample_BatchCodec :: BatchCodec where
  "sample_BatchCodec = \<lparr>
     Dump = (\<lambda>b. concat (map sample_dump_op b)),
     Load = (\<lambda>bs. sample_load (length bs) bs)\<rparr>"

definition sample_Store :: Store where
  "sample_Store = \<lparr>snapshotBatch = [], flushingBatch = [],
     db = Map.empty([1] \<mapsto> [9]), db_fault = False\<rparr>"

section \<open>Facts about the state writer\<close>

lemma cache_upd_refl: "\<exists>c. (s::StateDB) = s\<lparr>cache := c\<rparr>"
  by (rule exI[of _ "cache s"]) simp

lemma write_storage_eq: "write_storage E addr kvs b = b @ map (storage_op E addr) kvs"
  by (induction kvs arbitrary: b) (simp_all add: storage_op_def)

lemma write_balances_batch:
  "fst (fst (write_balances E addr tbs st)) = fst (fst st) @ map (balance_op E addr) tbs"
  by (induction tbs arbitrary: st) (simp_all add: balance_op_def writeBalance_def)

lemma write_balances_sdb:
  "\<exists>c. snd (fst (write_balances E addr tbs st)) = (snd (fst st))\<lparr>cache := c\<rparr>"
proof (induction tbs arbitrary: st)
  case Nil
  show ?case using cache_upd_refl by simp
next
  case (Cons tb tbs)
  let ?st' = "(writeBalance E (CreateBalanceKey E addr (fst tb)) (big_Bytes (snd tb)) (fst st),
        (snd st)\<lparr>BalanceMap := AList.update (fst tb) (snd tb) (BalanceMap (snd st))\<rparr>)"
  from Cons.IH [of ?st'] obtain c where
    "snd (fst (write_balances E addr tbs ?st')) = (snd (fst ?st'))\<lparr>cache := c\<rparr>" by blast
  then have "snd (fst (write_balances E addr (tb # tbs) st)) = (snd (fst st))\<lparr>cache := c\<rparr>"
    by (simp add: writeBalance_def)
  then show ?case by blast
qed

lemma write_balances_redo:
  "snd (write_balances E addr tbs st) = (snd st)\<lparr>BalanceMap := updates tbs (BalanceMap (snd st))\<rparr>"
  by (induction tbs arbitrary: st) simp_all

lemma write_metas_batch:
  "fst (fst (write_metas E h ams st)) = fst (fst st) @ concat (map (meta_ops E h) ams)"
  by (induction ams arbitrary: st)
     (simp_all add: meta_ops_def meta_bytes_def writeContractMeta_def Let_def)

lemma write_metas_sdb:
  "\<exists>c. snd (fst (write_metas E h ams st)) = (snd (fst st))\<lparr>cache := c\<rparr>"
proof (induction ams arbitrary: st)
  case Nil
  show ?case using cache_upd_refl by simp
next
  case (Cons am ams)
  let ?bs = "writeContractMeta E (CreateContractMetaKey E (fst am))
               (serialize_meta E ((snd am)\<lparr>CreateBlockHash := h\<rparr>)) (fst st)"
  let ?st' = "((fst ?bs @ [Put (CreateGidContractKey E (Gid ((snd am)\<lparr>CreateBlockHash := h\<rparr>)) (fst am)) []], snd ?bs),
      (snd st)\<lparr>ContractMeta := AList.update (fst am) (serialize_meta E ((snd am)\<lparr>CreateBlockHash := h\<rparr>)) (ContractMeta (snd st))\<rparr>)"
  from Cons.IH [of ?st'] obtain c where
    "snd (fst (write_metas E h ams ?st')) = (snd (fst ?st'))\<lparr>cache := c\<rparr>" by blast
  then have "snd (fst (write_metas E h (am # ams) st)) = (snd (fst st))\<lparr>cache := c\<rparr>"
    by (simp add: writeContractMeta_def Let_def)
  then show ?case by blast
qed

lemma write_metas_redo:
  "snd (write_metas E h ams st) =
     (snd st)\<lparr>ContractMeta :=
        updates (map (\<lambda>am. (fst am, meta_bytes E h (snd am))) ams) (ContractMeta (snd st))\<rparr>"
  by (induction ams arbitrary: st) (simp_all add: Let_def meta_bytes_def)

lemma write_depths_batch:
  "fst (write_depths E d hs st) = fst st @ map (depth_op E d) hs"
  by (induction hs arbitrary: st) (simp_all add: depth_op_def)

lemma write_depths_redo:
  "snd (write_depths E d hs st) =
     (snd st)\<lparr>CallDepth := updates (map (\<lambda>h. (h, d)) hs) (CallDepth (snd st))\<rparr>"
  by (induction hs arbitrary: st) simp_all

lemma write_prefix_batch: "fst (fst (write_prefix E block sDB)) = prefix_batch E block"
  unfolding write_prefix_def prefix_batch_def Let_def
  by (simp add: write_metas_batch write_balances_batch write_storage_eq split: option.splits)

lemma write_prefix_redo: "snd (write_prefix E block sDB) = prefix_redo E block"
  unfolding write_prefix_def prefix_redo_def Let_def
  by (simp add: write_metas_redo write_balances_redo empty_LogItem_def split: option.splits)

lemma write_prefix_sdb: "\<exists>c. snd (fst (write_prefix E block sDB)) = sDB\<lparr>cache := c\<rparr>"
proof -
  let ?addr = "AccountAddress (AccountBlock block)"
  let ?st1 = "((write_storage E ?addr (GetUnsavedStorage (VmDb block)) [], sDB),
               empty_LogItem\<lparr>Storage := GetUnsavedStorage (VmDb block)\<rparr>)"
  let ?st2 = "write_balances E ?addr (GetUnsavedBalanceMap (VmDb block)) ?st1"
  define st3 where "st3 = (case GetUnsavedContractCode (VmDb block) of
                   None \<Rightarrow> ?st2
                 | Some unsavedCode \<Rightarrow>
                     ((fst (fst ?st2) @ [Put (CreateCodeKey E ?addr) unsavedCode], snd (fst ?st2)),
                      (snd ?st2)\<lparr>Code := Some unsavedCode\<rparr>))"
  obtain c2 where c2: "snd (fst ?st2) = sDB\<lparr>cache := c2\<rparr>"
    using write_balances_sdb [of E ?addr "GetUnsavedBalanceMap (VmDb block)" ?st1] by auto
  have c3: "snd (fst st3) = sDB\<lparr>cache := c2\<rparr>"
    using c2 by (simp add: st3_def split: option.splits)
  obtain c4 where c4: "snd (fst (write_metas E (Hash (AccountBlock block))
       (GetUnsavedContractMeta (VmDb block)) st3)) = sDB\<lparr>cache := c4\<rparr>"
    using write_metas_sdb [of E "Hash (AccountBlock block)" "GetUnsavedContractMeta (VmDb block)" st3] c3
    by auto
  have eq: "write_prefix E block sDB =
        (if length (GetUnsavedContractMeta (VmDb block)) > 0
         then write_metas E (Hash (AccountBlock block)) (GetUnsavedContractMeta (VmDb block)) st3
         else st3)"
    unfolding write_prefix_def Let_def st3_def by (rule refl)
  show ?thesis
  proof (cases "length (GetUnsavedContractMeta (VmDb block)) > 0")
    case True
    then show ?thesis using c4 eq by auto
  next
    case False
    then show ?thesis using c3 eq by auto
  qed
qed

lemma canWriteVmLog_cache [simp]: "canWriteVmLog (sDB\<lparr>cache := c\<rparr>) a = canWriteVmLog sDB a"
  by (simp add: canWriteVmLog_def)

lemma canWriteVmLog_iff: "canWriteVmLog sDB a \<longleftrightarrow> vmLogAll sDB \<or> a \<in> vmLogWhiteListSet sDB"
  by (simp add: canWriteVmLog_def)

lemma write_vmlog_sdb:
  "write_vmlog E block st = Inr st' \<Longrightarrow> snd (fst st') = snd (fst st)"
  by (auto simp: write_vmlog_def Let_def split: option.splits if_splits sum.splits)

lemma write_calldepth_sdb:
  "write_calldepth E block st = Inr st' \<Longrightarrow> snd (fst st') = snd (fst st)"
  by (auto simp: write_calldepth_def Let_def split: option.splits if_splits sum.splits)

lemma write_vmlog_ok:
  assumes "write_vmlog E block st = Inr st'"
  shows "fst (fst st') = fst (fst st)
           @ map (\<lambda>hb. Put (CreateVmLogListKey E (fst hb)) (snd hb)) (vmlog_entry E block (snd (fst st)))"
    and "vmlog_entry E block (snd (fst st)) \<noteq> [] \<Longrightarrow>
           snd st' = (snd st)\<lparr>VmLogList := vmlog_entry E block (snd (fst st))\<rparr>"
    and "vmlog_entry E block (snd (fst st)) = [] \<Longrightarrow> snd st' = snd st"
  using assms
  by (auto simp: write_vmlog_def vmlog_entry_def Let_def split: option.splits if_splits sum.splits)

lemma write_calldepth_ok:
  assumes "write_calldepth E block st = Inr st'"
  shows "fst (fst st') = fst (fst st) @ map (\<lambda>hd. depth_op E (snd hd) (fst hd)) (depth_entries block)"
    and "depth_entries block \<noteq> [] \<Longrightarrow>
           snd st' = (snd st)\<lparr>CallDepth := updates (depth_entries block) []\<rparr>"
    and "depth_entries block = [] \<Longrightarrow> snd st' = snd st"
  using assms
  by (auto simp: write_calldepth_def depth_entries_def Let_def write_depths_batch write_depths_redo
        comp_def split: option.splits if_splits sum.splits)

lemma vmlog_entry_cache [simp]: "vmlog_entry E block (sDB\<lparr>cache := c\<rparr>) = vmlog_entry E block sDB"
  by (simp add: vmlog_entry_def split: option.splits)

lemma snd_write_vmlog:
  assumes "write_vmlog E block st = Inr st'" and "VmLogList (snd st) = []"
  shows "snd st' = (snd st)\<lparr>VmLogList := vmlog_entry E block (snd (fst st))\<rparr>"
proof (cases "vmlog_entry E block (snd (fst st)) = []")
  case True
  then show ?thesis using write_vmlog_ok(3) [OF assms(1)] assms(2) by simp
next
  case False
  then show ?thesis using write_vmlog_ok(2) [OF assms(1)] by simp
qed

lemma snd_write_calldepth:
  assumes "write_calldepth E block st = Inr st'" and "CallDepth (snd st) = []"
  shows "snd st' = (snd st)\<lparr>CallDepth := updates (depth_entries block) []\<rparr>"
proof (cases "depth_entries block = []")
  case True
  then show ?thesis using write_calldepth_ok(3) [OF assms(1)] assms(2) by simp
next
  case False
  then show ?thesis using write_calldepth_ok(2) [OF assms(1)] by simp
qed

lemma Write_None_steps:
  assumes "Write E block sDB = (None, sDB')"
  obtains st4 st5 where "CanWrite (VmDb block)"
    and "write_vmlog E block (write_prefix E block sDB) = Inr st4"
    and "write_calldepth E block st4 = Inr st5"
    and "sDB' = store_write (fst (fst st5))
            (AddLog (AccountAddress (AccountBlock block))
               ((snd st5)\<lparr>Height := BlockHeight (AccountBlock block)\<rparr>) (snd (fst st5)))"
  using assms
  by (auto simp: Write_def Let_def split: if_splits sum.splits)

lemma Write_ok:
  assumes "Write E block sDB = (None, sDB')"
  shows "sDB' = store_write (Write_batch E block sDB)
                  (AddLog (AccountAddress (AccountBlock block)) (Write_redo E block sDB)
                     (snd (fst (write_prefix E block sDB))))"
proof -
  from assms obtain st4 st5 where
    s4: "write_vmlog E block (write_prefix E block sDB) = Inr st4" and
    s5: "write_calldepth E block st4 = Inr st5" and
    r: "sDB' = store_write (fst (fst st5))
            (AddLog (AccountAddress (AccountBlock block))
               ((snd st5)\<lparr>Height := BlockHeight (AccountBlock block)\<rparr>) (snd (fst st5)))"
    by (rule Write_None_steps)
  obtain c where c: "snd (fst (write_prefix E block sDB)) = sDB\<lparr>cache := c\<rparr>"
    using write_prefix_sdb by blast
  have d4: "snd (fst st4) = snd (fst (write_prefix E block sDB))"
    using write_vmlog_sdb [OF s4] .
  have d5: "snd (fst st5) = snd (fst (write_prefix E block sDB))"
    using write_calldepth_sdb [OF s5] d4 by simp
  have b4: "fst (fst st4) = prefix_batch E block
      @ map (\<lambda>hb. Put (CreateVmLogListKey E (fst hb)) (snd hb)) (vmlog_entry E block sDB)"
    using write_vmlog_ok(1) [OF s4] c by (simp add: write_prefix_batch)
  have b5: "fst (fst st5) = Write_batch E block sDB"
    using write_calldepth_ok(1) [OF s5] b4 by (simp add: Write_batch_def)
  have r4: "snd st4 = (prefix_redo E block)\<lparr>VmLogList := vmlog_entry E block sDB\<rparr>"
    using snd_write_vmlog [OF s4] c by (simp add: write_prefix_redo prefix_redo_def)
  have r5: "snd st5 = (prefix_redo E block)\<lparr>VmLogList := vmlog_entry E block sDB,
              CallDepth := updates (depth_entries block) []\<rparr>"
    using snd_write_calldepth [OF s5] r4 by (simp add: prefix_redo_def)
  show ?thesis
    using r b5 r5 d5 by (simp add: Write_redo_def)
qed

lemma Write_error_sdb:
  assumes "fst (Write E block sDB) \<noteq> None"
  shows "\<exists>c. snd (Write E block sDB) = sDB\<lparr>cache := c\<rparr>"
proof (cases "CanWrite (VmDb block)")
  case False
  then show ?thesis using cache_upd_refl by (simp add: Write_def)
next
  case True
  obtain c where c: "snd (fst (write_prefix E block sDB)) = sDB\<lparr>cache := c\<rparr>"
    using write_prefix_sdb by blast
  show ?thesis
  proof (cases "write_vmlog E block (write_prefix E block sDB)")
    case (Inl err)
    then show ?thesis using True c by (auto simp: Write_def)
  next
    case (Inr st4)
    note st4 = this
    show ?thesis
    proof (cases "write_calldepth E block st4")
      case (Inl err)
      then show ?thesis using True c st4 write_vmlog_sdb [OF st4] by (auto simp: Write_def)
    next
      case (Inr st5)
      then show ?thesis using assms True st4 by (simp add: Write_def Let_def)
    qed
  qed
qed

lemma written_store_write [simp]:
  "written sDB (store_write b (AddLog a i (sDB\<lparr>cache := c\<rparr>))) = b"
  by (simp add: written_def store_write_def AddLog_def)

lemma recorded_AddLog [simp]:
  "recorded (store_write b (AddLog a i s)) a = Some i"
proof -
  have "logs_of (redo_logs (store_write b (AddLog a i s))) a = logs_of (redo_logs s) a @ [i]"
    by (simp add: store_write_def AddLog_def logs_of_def update_conv')
  then show ?thesis
    by (cases "logs_of (redo_logs s) a") (simp_all add: recorded_def)
qed

lemma Write_written:
  assumes "Write E block sDB = (None, sDB')"
  shows "written sDB sDB' = Write_batch E block sDB"
proof -
  obtain c where c: "snd (fst (write_prefix E block sDB)) = sDB\<lparr>cache := c\<rparr>"
    using write_prefix_sdb by blast
  show ?thesis using Write_ok [OF assms] c by simp
qed

lemma Write_recorded:
  assumes "Write E block sDB = (None, sDB')"
  shows "recorded sDB' (AccountAddress (AccountBlock block)) = Some (Write_redo E block sDB)"
  using Write_ok [OF assms] by simp

lemmas sample_defs = sample_block_def sample_AccountBlock_def sample_VmDb_def sample_Env_def sample_StateDB_def

lemma PutUint16_big_endian:
  "PutUint16 v = [hi, lo] \<Longrightarrow> unat hi * 256 + unat lo = unat v"
proof -
  assume a: "PutUint16 v = [hi, lo]"
  have lt: "unat v < 65536" using unsigned_less [of v, where 'a = nat] by simp
  have "unat (drop_bit 8 v) = unat v div 256" by (simp add: drop_bit_eq_div unat_div)
  then have "unat (ucast (drop_bit 8 v) :: 8 word) = unat v div 256"
    using lt by (simp add: unsigned_ucast_eq take_bit_eq_mod)
  then have hi: "unat hi = unat v div 256" using a by (simp add: PutUint16_def)
  have "unat (ucast v :: 8 word) = unat v mod 256"
    by (simp add: unsigned_ucast_eq take_bit_eq_mod)
  then have lo: "unat lo = unat v mod 256" using a by (simp add: PutUint16_def)
  show ?thesis using hi lo by simp
qed


lemma apply_batch_append: "apply_batch (b1 @ b2) eng = apply_batch b2 (apply_batch b1 eng)"
  by (induction b1 arbitrary: eng) simp_all

lemma apply_depth_ops:
  "apply_batch (map (depth_op E d) hs) eng k =
     (if k \<in> CreateCallDepthKey E ` set hs then Some (PutUint16 d) else eng k)"
  by (induction hs arbitrary: eng) (auto simp: depth_op_def)

lemma map_of_updates:
  "map_of (updates xs m) k = (case last_value xs k of None \<Rightarrow> map_of m k | Some v \<Rightarrow> Some v)"
proof (induction xs arbitrary: m)
  case Nil
  show ?case by (simp add: last_value_def)
next
  case (Cons kv kvs)
  show ?case
    by (simp add: Cons.IH last_value_def update_conv' map_add_def split: option.splits)
qed

lemma last_value_const:
  "last_value (map (\<lambda>h. (h, c)) hs) k = (if k \<in> set hs then Some c else None)"
  by (induction hs) (auto simp: last_value_def map_add_def split: option.splits)

lemma depth_entries_Inr:
  assumes "IsReceiveBlock (AccountBlock block)" and "SendBlockList (AccountBlock block) \<noteq> []"
    and "GetCallDepth (VmDb block) (FromBlockHash (AccountBlock block)) = Inr d"
  shows "depth_entries block = map (\<lambda>h. (h, d + 1)) (SendBlockList (AccountBlock block))"
  using assms by (simp add: depth_entries_def)

text \<open>
  C3 (amended). When the provider is not writable, Write returns the invalid-state error
  and leaves the state database as it was. Whenever Write returns an error, the pending
  buffer of the store and the redo log manager are as before: no operation was handed
  over and no redo item was added. The state database then differs from the one before
  the call in its read cache at most.
\<close>

theorem Write_error_keeps_store_and_redo:
  "(\<not> CanWrite (VmDb block) \<longrightarrow> Write E block sDB = (Some ErrCanWriteFalse, sDB))
   \<and> (fst (Write E block sDB) \<noteq> None \<longrightarrow>
        store_pending (snd (Write E block sDB)) = store_pending sDB
      \<and> redo_logs (snd (Write E block sDB)) = redo_logs sDB
      \<and> (\<exists>c. snd (Write E block sDB) = sDB\<lparr>cache := c\<rparr>))"
proof -
  have a: "\<not> CanWrite (VmDb block) \<longrightarrow> Write E block sDB = (Some ErrCanWriteFalse, sDB)"
    by (simp add: Write_def)
  have b: "fst (Write E block sDB) \<noteq> None \<longrightarrow>
        store_pending (snd (Write E block sDB)) = store_pending sDB
      \<and> redo_logs (snd (Write E block sDB)) = redo_logs sDB
      \<and> (\<exists>c. snd (Write E block sDB) = sDB\<lparr>cache := c\<rparr>)"
  proof
    assume e: "fst (Write E block sDB) \<noteq> None"
    from Write_error_sdb [OF e] obtain c where
      c: "snd (Write E block sDB) = sDB\<lparr>cache := c\<rparr>" by blast
    have "store_pending (snd (Write E block sDB)) = store_pending sDB"
      and "redo_logs (snd (Write E block sDB)) = redo_logs sDB"
      by (simp_all add: c)
    then show "store_pending (snd (Write E block sDB)) = store_pending sDB
      \<and> redo_logs (snd (Write E block sDB)) = redo_logs sDB
      \<and> (\<exists>c. snd (Write E block sDB) = sDB\<lparr>cache := c\<rparr>)"
      using c by blast
  qed
  from a b show ?thesis by blast
qed

lemmas sample_Write_simps =
  Write_def write_prefix_def write_vmlog_def write_calldepth_def Let_def
  canWriteVmLog_def writeBalance_def writeContractMeta_def serialize_meta_def
  store_write_def AddLog_def logs_of_def empty_LogItem_def
  big_Bytes_def nat_be.simps PutUint16_def

theorem Write_error_keeps_store_and_redo_witness:
  "\<not> CanWrite (VmDb (sample_block\<lparr>VmDb := sample_VmDb\<lparr>CanWrite := False\<rparr>\<rparr>))
   \<and> Write sample_Env (sample_block\<lparr>VmDb := sample_VmDb\<lparr>CanWrite := False\<rparr>\<rparr>) sample_StateDB
       = (Some ErrCanWriteFalse, sample_StateDB)
   \<and> fst (Write sample_Env
          (sample_block\<lparr>VmDb := sample_VmDb\<lparr>GetCallDepth := (\<lambda>h. Inl ErrCallDepth)\<rparr>\<rparr>)
          sample_StateDB) = Some ErrCallDepth
   \<and> store_pending (snd (Write sample_Env
          (sample_block\<lparr>VmDb := sample_VmDb\<lparr>GetCallDepth := (\<lambda>h. Inl ErrCallDepth)\<rparr>\<rparr>)
          sample_StateDB)) = []
   \<and> redo_logs (snd (Write sample_Env
          (sample_block\<lparr>VmDb := sample_VmDb\<lparr>GetCallDepth := (\<lambda>h. Inl ErrCallDepth)\<rparr>\<rparr>)
          sample_StateDB)) = []"
proof -
  have e: "fst (Write sample_Env
          (sample_block\<lparr>VmDb := sample_VmDb\<lparr>GetCallDepth := (\<lambda>h. Inl ErrCallDepth)\<rparr>\<rparr>)
          sample_StateDB) = Some ErrCallDepth"
    by (simp add: sample_Write_simps sample_defs)
  have n: "\<not> CanWrite (VmDb (sample_block\<lparr>VmDb := sample_VmDb\<lparr>CanWrite := False\<rparr>\<rparr>))"
    by simp
  show ?thesis
    using e n
      Write_error_keeps_store_and_redo [of "sample_block\<lparr>VmDb := sample_VmDb\<lparr>CanWrite := False\<rparr>\<rparr>"
        sample_Env sample_StateDB]
      Write_error_keeps_store_and_redo [of
        "sample_block\<lparr>VmDb := sample_VmDb\<lparr>GetCallDepth := (\<lambda>h. Inl ErrCallDepth)\<rparr>\<rparr>"
        sample_Env sample_StateDB]
    by (simp add: sample_StateDB_def)
qed

text \<open>
  C3 as stated fails: a receive block with an unsaved balance whose provider cannot give
  the call depth makes Write return the error after writeBalance has put the balance into
  the read cache; the state database is not the one before the call.
\<close>

theorem Write_error_changes_cache_counterexample:
  "fst (Write sample_Env
          (sample_block\<lparr>VmDb := sample_VmDb\<lparr>GetCallDepth := (\<lambda>h. Inl ErrCallDepth)\<rparr>\<rparr>)
          sample_StateDB) = Some ErrCallDepth
   \<and> cache sample_StateDB [101, 3, 10, 11, 30] = None
   \<and> cache (snd (Write sample_Env
          (sample_block\<lparr>VmDb := sample_VmDb\<lparr>GetCallDepth := (\<lambda>h. Inl ErrCallDepth)\<rparr>\<rparr>)
          sample_StateDB)) [101, 3, 10, 11, 30] = Some [1, 2]
   \<and> snd (Write sample_Env
          (sample_block\<lparr>VmDb := sample_VmDb\<lparr>GetCallDepth := (\<lambda>h. Inl ErrCallDepth)\<rparr>\<rparr>)
          sample_StateDB) \<noteq> sample_StateDB"
proof -
  have c: "cache (snd (Write sample_Env
          (sample_block\<lparr>VmDb := sample_VmDb\<lparr>GetCallDepth := (\<lambda>h. Inl ErrCallDepth)\<rparr>\<rparr>)
          sample_StateDB)) [101, 3, 10, 11, 30] = Some [1, 2]"
    by (simp add: sample_Write_simps sample_defs)
  have e: "fst (Write sample_Env
          (sample_block\<lparr>VmDb := sample_VmDb\<lparr>GetCallDepth := (\<lambda>h. Inl ErrCallDepth)\<rparr>\<rparr>)
          sample_StateDB) = Some ErrCallDepth"
    by (simp add: sample_Write_simps sample_defs)
  have n: "cache sample_StateDB [101, 3, 10, 11, 30] = None"
    by (simp add: sample_StateDB_def)
  from c n have "snd (Write sample_Env
          (sample_block\<lparr>VmDb := sample_VmDb\<lparr>GetCallDepth := (\<lambda>h. Inl ErrCallDepth)\<rparr>\<rparr>)
          sample_StateDB) \<noteq> sample_StateDB"
    by (metis option.distinct(1))
  with c e n show ?thesis by blast
qed

section \<open>The vm log policy and the call depth\<close>

lemma vmlog_entry_None: "LogHash (AccountBlock block) = None \<Longrightarrow> vmlog_entry E block sDB = []"
  unfolding vmlog_entry_def by simp

lemma vmlog_entry_Inl:
  "LogListSerialize E (GetLogList (VmDb block)) = Inl e \<Longrightarrow> vmlog_entry E block sDB = []"
  unfolding vmlog_entry_def by (simp split: option.splits)

lemma vmlog_entry_Some:
  "LogHash (AccountBlock block) = Some lh \<Longrightarrow>
   LogListSerialize E (GetLogList (VmDb block)) = Inr bs \<Longrightarrow>
   vmlog_entry E block sDB =
     (if vmLogAll sDB \<or> AccountAddress (AccountBlock block) \<in> vmLogWhiteListSet sDB
      then [(lh, bs)] else [])"
  unfolding vmlog_entry_def by (simp add: canWriteVmLog_iff)

lemma vmlog_entry_iff:
  "(h, v) \<in> set (vmlog_entry E block sDB) \<longleftrightarrow>
     LogHash (AccountBlock block) = Some h
   \<and> (vmLogAll sDB \<or> AccountAddress (AccountBlock block) \<in> vmLogWhiteListSet sDB)
   \<and> LogListSerialize E (GetLogList (VmDb block)) = Inr v"
proof (cases "LogHash (AccountBlock block)")
  case None
  then show ?thesis by (simp add: vmlog_entry_None)
next
  case (Some lh)
  note lh = this
  show ?thesis
  proof (cases "LogListSerialize E (GetLogList (VmDb block))")
    case (Inl e)
    then show ?thesis by (simp add: vmlog_entry_Inl)
  next
    case (Inr bs)
    show ?thesis unfolding vmlog_entry_Some [OF lh Inr] using lh Inr by auto
  qed
qed



lemma vmlog_keys_apartD:
  assumes "vmlog_keys_apart E"
  shows "CreateVmLogListKey E h = CreateVmLogListKey E h' \<longleftrightarrow> h = h'"
    and "CreateVmLogListKey E h \<noteq> CreateStorageValueKey E a k"
    and "CreateVmLogListKey E h \<noteq> CreateBalanceKey E a t"
    and "CreateVmLogListKey E h \<noteq> CreateCodeKey E a"
    and "CreateVmLogListKey E h \<noteq> CreateContractMetaKey E a"
    and "CreateVmLogListKey E h \<noteq> CreateGidContractKey E g a"
    and "CreateVmLogListKey E h \<noteq> CreateCallDepthKey E h'"
  using assms unfolding vmlog_keys_apart_def by blast+

lemma prefix_batch_no_vmlog_key:
  assumes "vmlog_keys_apart E"
  shows "Put (CreateVmLogListKey E h) v \<notin> set (prefix_batch E block)"
proof -
  let ?p = "Put (CreateVmLogListKey E h) v"
  have 1: "?p \<notin> set (map (storage_op E a) kvs)" for a kvs
    using vmlog_keys_apartD(2) [OF assms] by (auto simp: storage_op_def split: if_splits)
  have 2: "?p \<notin> set (map (balance_op E a) tbs)" for a tbs
    using vmlog_keys_apartD(3) [OF assms] by (auto simp: balance_op_def)
  have 3: "?p \<notin> set (case c of None \<Rightarrow> [] | Some code \<Rightarrow> [Put (CreateCodeKey E a) code])" for a c
    using vmlog_keys_apartD(4) [OF assms] by (cases c) auto
  have 4: "?p \<notin> set (concat (map (meta_ops E hh) ams))" for hh ams
    using vmlog_keys_apartD(5,6) [OF assms] by (auto simp: meta_ops_def)
  show ?thesis
    unfolding prefix_batch_def using 1 2 3 4 by simp
qed

lemma depth_ops_no_vmlog_key:
  assumes "vmlog_keys_apart E"
  shows "Put (CreateVmLogListKey E h) v \<notin> set (map (\<lambda>hd. depth_op E (snd hd) (fst hd)) xs)"
  using vmlog_keys_apartD(7) [OF assms] by (auto simp: depth_op_def)

lemma vmlog_ops_mem:
  assumes "vmlog_keys_apart E"
  shows "Put (CreateVmLogListKey E h) v
               \<in> set (map (\<lambda>hb. Put (CreateVmLogListKey E (fst hb)) (snd hb)) xs)
             \<longleftrightarrow> (h, v) \<in> set xs"
  using vmlog_keys_apartD(1) [OF assms] by force

lemma Write_vmlog_serialized:
  assumes "Write E block sDB = (None, sDB')"
    and "LogHash (AccountBlock block) = Some h"
    and "canWriteVmLog sDB (AccountAddress (AccountBlock block))"
  shows "\<exists>v. LogListSerialize E (GetLogList (VmDb block)) = Inr v"
proof -
  from assms(1) obtain st4 where
    s4: "write_vmlog E block (write_prefix E block sDB) = Inr st4"
    by (rule Write_None_steps)
  obtain c where c: "snd (fst (write_prefix E block sDB)) = sDB\<lparr>cache := c\<rparr>"
    using write_prefix_sdb by blast
  show ?thesis
    using s4 c assms(2,3)
    by (cases "LogListSerialize E (GetLogList (VmDb block))")
       (simp_all add: write_vmlog_def Let_def)
qed

text \<open>
  C8. After a Write that returned nil, the batch handed to the store holds a Put of a
  value under the vm log key of a hash exactly when the hash is the block's log hash,
  the policy allows the account address, and the value is the serialized log list; the
  redo item recorded for the block holds the same entry under the same condition. The
  policy allows an address exactly when vmLogAll is set or the address is in the
  white-list set, and a block with a log hash that the policy allows is only written
  when its log list serializes.
\<close>

theorem vm_log_persisted_iff_policy:
  assumes "vmlog_keys_apart E" and "Write E block sDB = (None, sDB')"
  shows "(Put (CreateVmLogListKey E h) v \<in> set (written sDB sDB') \<longleftrightarrow>
            LogHash (AccountBlock block) = Some h
          \<and> (vmLogAll sDB \<or> AccountAddress (AccountBlock block) \<in> vmLogWhiteListSet sDB)
          \<and> LogListSerialize E (GetLogList (VmDb block)) = Inr v)
       \<and> (\<exists>item. recorded sDB' (AccountAddress (AccountBlock block)) = Some item
          \<and> ((h, v) \<in> set (VmLogList item) \<longleftrightarrow>
                LogHash (AccountBlock block) = Some h
              \<and> (vmLogAll sDB \<or> AccountAddress (AccountBlock block) \<in> vmLogWhiteListSet sDB)
              \<and> LogListSerialize E (GetLogList (VmDb block)) = Inr v))
       \<and> (canWriteVmLog sDB (AccountAddress (AccountBlock block)) \<longleftrightarrow>
            vmLogAll sDB \<or> AccountAddress (AccountBlock block) \<in> vmLogWhiteListSet sDB)
       \<and> (LogHash (AccountBlock block) \<noteq> None
            \<and> canWriteVmLog sDB (AccountAddress (AccountBlock block))
          \<longrightarrow> (\<exists>bs. LogListSerialize E (GetLogList (VmDb block)) = Inr bs))"
proof -
  let ?cond = "LogHash (AccountBlock block) = Some h
          \<and> (vmLogAll sDB \<or> AccountAddress (AccountBlock block) \<in> vmLogWhiteListSet sDB)
          \<and> LogListSerialize E (GetLogList (VmDb block)) = Inr v"
  have w: "written sDB sDB' = Write_batch E block sDB"
    using Write_written [OF assms(2)] .
  have mem: "Put (CreateVmLogListKey E h) v
               \<in> set (map (\<lambda>hb. Put (CreateVmLogListKey E (fst hb)) (snd hb)) (vmlog_entry E block sDB))
             \<longleftrightarrow> (h, v) \<in> set (vmlog_entry E block sDB)"
    using vmlog_ops_mem [OF assms(1)] .
  have a: "Put (CreateVmLogListKey E h) v \<in> set (written sDB sDB') \<longleftrightarrow> ?cond"
    unfolding w Write_batch_def
    using prefix_batch_no_vmlog_key [OF assms(1)] depth_ops_no_vmlog_key [OF assms(1)] mem
    by (simp add: vmlog_entry_iff)
  have r: "recorded sDB' (AccountAddress (AccountBlock block)) = Some (Write_redo E block sDB)"
    using Write_recorded [OF assms(2)] .
  have "(h, v) \<in> set (VmLogList (Write_redo E block sDB)) \<longleftrightarrow> ?cond"
    by (simp add: Write_redo_def vmlog_entry_iff)
  with r have b: "\<exists>item. recorded sDB' (AccountAddress (AccountBlock block)) = Some item
          \<and> ((h, v) \<in> set (VmLogList item) \<longleftrightarrow> ?cond)"
    by blast
  have c: "canWriteVmLog sDB (AccountAddress (AccountBlock block)) \<longleftrightarrow>
            vmLogAll sDB \<or> AccountAddress (AccountBlock block) \<in> vmLogWhiteListSet sDB"
    by (rule canWriteVmLog_iff)
  have d: "LogHash (AccountBlock block) \<noteq> None
            \<and> canWriteVmLog sDB (AccountAddress (AccountBlock block))
          \<longrightarrow> (\<exists>bs. LogListSerialize E (GetLogList (VmDb block)) = Inr bs)"
    using Write_vmlog_serialized [OF assms(2)] by auto
  from a b c d show ?thesis by blast
qed

lemmas sample_batch_simps =
  Write_batch_def prefix_batch_def vmlog_entry_def depth_entries_def
  storage_op_def balance_op_def meta_ops_def meta_bytes_def serialize_meta_def depth_op_def
  canWriteVmLog_def big_Bytes_def nat_be.simps PutUint16_def

theorem vm_log_persisted_iff_policy_witness:
  "vmlog_keys_apart sample_Env
   \<and> fst (Write sample_Env sample_block sample_StateDB) = None
   \<and> Put (CreateVmLogListKey sample_Env [72]) [60]
        \<in> set (written sample_StateDB (snd (Write sample_Env sample_block sample_StateDB)))
   \<and> fst (Write sample_Env sample_block (sample_StateDB\<lparr>vmLogWhiteListSet := {}\<rparr>)) = None
   \<and> Put (CreateVmLogListKey sample_Env [72]) [60]
        \<notin> set (written (sample_StateDB\<lparr>vmLogWhiteListSet := {}\<rparr>)
                 (snd (Write sample_Env sample_block (sample_StateDB\<lparr>vmLogWhiteListSet := {}\<rparr>))))"
proof -
  have k: "vmlog_keys_apart sample_Env"
    by (simp add: vmlog_keys_apart_def sample_Env_def)
  have w1: "fst (Write sample_Env sample_block sample_StateDB) = None"
    by (simp add: sample_Write_simps sample_defs)
  have w2: "fst (Write sample_Env sample_block (sample_StateDB\<lparr>vmLogWhiteListSet := {}\<rparr>)) = None"
    by (simp add: sample_Write_simps sample_defs)
  have p1: "Write sample_Env sample_block sample_StateDB
              = (None, snd (Write sample_Env sample_block sample_StateDB))"
    using w1 by (metis prod.collapse)
  have p2: "Write sample_Env sample_block (sample_StateDB\<lparr>vmLogWhiteListSet := {}\<rparr>)
              = (None, snd (Write sample_Env sample_block (sample_StateDB\<lparr>vmLogWhiteListSet := {}\<rparr>)))"
    using w2 by (metis prod.collapse)
  have c1: "LogHash (AccountBlock sample_block) = Some [72]
          \<and> (vmLogAll sample_StateDB
              \<or> AccountAddress (AccountBlock sample_block) \<in> vmLogWhiteListSet sample_StateDB)
          \<and> LogListSerialize sample_Env (GetLogList (VmDb sample_block)) = Inr [60]"
    by (simp add: sample_defs)
  have c2: "\<not> (vmLogAll (sample_StateDB\<lparr>vmLogWhiteListSet := {}\<rparr>)
              \<or> AccountAddress (AccountBlock sample_block)
                   \<in> vmLogWhiteListSet (sample_StateDB\<lparr>vmLogWhiteListSet := {}\<rparr>))"
    by (simp add: sample_defs)
  show ?thesis
    using k w1 w2 c1 c2
      vm_log_persisted_iff_policy [OF k p1, of "[72]" "[60]"]
      vm_log_persisted_iff_policy [OF k p2, of "[72]" "[60]"]
    by blast
qed

text \<open>
  C9. For a receive block with a non-empty send-block list whose Write returned nil, with
  \<open>d\<close> the depth the provider gives for the FromBlockHash: the batch handed to the
  store puts the two big-endian bytes of \<open>d + 1\<close> (16-bit addition) under the call-depth
  key of every send block hash, the store holds that value under each such key once the
  batch is applied, and the call-depth map of the recorded redo item maps exactly the send
  block hashes, each to \<open>d + 1\<close>.
\<close>

theorem call_depth_stored_for_send_blocks:
  assumes "Write E block sDB = (None, sDB')"
    and "IsReceiveBlock (AccountBlock block)"
    and "SendBlockList (AccountBlock block) \<noteq> []"
    and "GetCallDepth (VmDb block) (FromBlockHash (AccountBlock block)) = Inr d"
  shows "(\<forall>h \<in> set (SendBlockList (AccountBlock block)).
            Put (CreateCallDepthKey E h) (PutUint16 (d + 1)) \<in> set (written sDB sDB')
          \<and> apply_batch (written sDB sDB') eng (CreateCallDepthKey E h) = Some (PutUint16 (d + 1)))
       \<and> (\<exists>item. recorded sDB' (AccountAddress (AccountBlock block)) = Some item
          \<and> (\<forall>h. map_of (CallDepth item) h
                  = (if h \<in> set (SendBlockList (AccountBlock block)) then Some (d + 1) else None)))
       \<and> (\<exists>hi lo. PutUint16 (d + 1) = [hi, lo] \<and> unat hi * 256 + unat lo = unat (d + 1))"
proof -
  let ?hs = "SendBlockList (AccountBlock block)"
  have de: "depth_entries block = map (\<lambda>h. (h, d + 1)) ?hs"
    using depth_entries_Inr [OF assms(2,3,4)] .
  have w: "written sDB sDB' = prefix_batch E block
     @ map (\<lambda>hb. Put (CreateVmLogListKey E (fst hb)) (snd hb)) (vmlog_entry E block sDB)
     @ map (depth_op E (d + 1)) ?hs"
    using Write_written [OF assms(1)] by (simp add: Write_batch_def de comp_def)
  have a: "\<forall>h \<in> set ?hs.
            Put (CreateCallDepthKey E h) (PutUint16 (d + 1)) \<in> set (written sDB sDB')
          \<and> apply_batch (written sDB sDB') eng (CreateCallDepthKey E h) = Some (PutUint16 (d + 1))"
  proof
    fix h assume h: "h \<in> set ?hs"
    have "Put (CreateCallDepthKey E h) (PutUint16 (d + 1)) \<in> set (map (depth_op E (d + 1)) ?hs)"
      using h by (auto simp: depth_op_def)
    then have m: "Put (CreateCallDepthKey E h) (PutUint16 (d + 1)) \<in> set (written sDB sDB')"
      unfolding w by simp
    have "apply_batch (written sDB sDB') eng (CreateCallDepthKey E h) = Some (PutUint16 (d + 1))"
      unfolding w using h by (simp add: apply_batch_append apply_depth_ops)
    with m show "Put (CreateCallDepthKey E h) (PutUint16 (d + 1)) \<in> set (written sDB sDB')
          \<and> apply_batch (written sDB sDB') eng (CreateCallDepthKey E h) = Some (PutUint16 (d + 1))"
      by blast
  qed
  have r: "recorded sDB' (AccountAddress (AccountBlock block)) = Some (Write_redo E block sDB)"
    using Write_recorded [OF assms(1)] .
  have "\<forall>h. map_of (CallDepth (Write_redo E block sDB)) h
                  = (if h \<in> set ?hs then Some (d + 1) else None)"
    by (simp add: Write_redo_def de map_of_updates last_value_const)
  with r have b: "\<exists>item. recorded sDB' (AccountAddress (AccountBlock block)) = Some item
          \<and> (\<forall>h. map_of (CallDepth item) h = (if h \<in> set ?hs then Some (d + 1) else None))"
    by blast
  have "PutUint16 (d + 1) = [ucast (drop_bit 8 (d + 1)), ucast (d + 1)]"
    by (simp add: PutUint16_def)
  then have c: "\<exists>hi lo. PutUint16 (d + 1) = [hi, lo] \<and> unat hi * 256 + unat lo = unat (d + 1)"
    using PutUint16_big_endian by blast
  from a b c show ?thesis by blast
qed

theorem call_depth_stored_for_send_blocks_witness:
  "fst (Write sample_Env sample_block sample_StateDB) = None
   \<and> IsReceiveBlock (AccountBlock sample_block)
   \<and> SendBlockList (AccountBlock sample_block) = [[73], [74]]
   \<and> GetCallDepth (VmDb sample_block) (FromBlockHash (AccountBlock sample_block)) = Inr 255
   \<and> Put (CreateCallDepthKey sample_Env [74]) [1, 0]
        \<in> set (written sample_StateDB (snd (Write sample_Env sample_block sample_StateDB)))
   \<and> apply_batch (written sample_StateDB (snd (Write sample_Env sample_block sample_StateDB)))
        Map.empty (CreateCallDepthKey sample_Env [73]) = Some [1, 0]"
proof -
  have w1: "fst (Write sample_Env sample_block sample_StateDB) = None"
    by (simp add: sample_Write_simps sample_defs)
  have p1: "Write sample_Env sample_block sample_StateDB
              = (None, snd (Write sample_Env sample_block sample_StateDB))"
    using w1 by (metis prod.collapse)
  have i: "IsReceiveBlock (AccountBlock sample_block)"
    and s: "SendBlockList (AccountBlock sample_block) = [[73], [74]]"
    and g: "GetCallDepth (VmDb sample_block) (FromBlockHash (AccountBlock sample_block)) = Inr 255"
    by (simp_all add: sample_defs)
  have n: "SendBlockList (AccountBlock sample_block) \<noteq> []" using s by simp
  have u: "PutUint16 (255 + 1) = [1, 0]" by (simp add: PutUint16_def)
  show ?thesis
    using w1 i s g u call_depth_stored_for_send_blocks [OF p1 i n g, of Map.empty]
    by simp
qed

section \<open>Replaying a redo item\<close>








lemma written_cache_pending [simp]:
  "written sDB (sDB\<lparr>cache := c, store_pending := store_pending sDB @ b\<rparr>) = b"
  by (simp add: written_def)







text \<open>The effect of a batch on a key is fixed by the batch alone once the batch touches the key.\<close>

lemma apply_batch_key:
  "apply_batch b e k = (if k \<in> op_key ` set b then apply_batch b e' k else e k)"
proof (induction b arbitrary: e e')
  case Nil
  show ?case by simp
next
  case (Cons x xs)
  show ?case
  proof (cases "k \<in> op_key ` set xs")
    case True
    then show ?thesis
      using Cons.IH [of "apply_op e x" "apply_op e' x"] by simp
  next
    case False
    have 1: "apply_batch xs (apply_op e x) k = apply_op e x k"
      using Cons.IH [of "apply_op e x" e] False by simp
    have 2: "apply_batch xs (apply_op e' x) k = apply_op e' x k"
      using Cons.IH [of "apply_op e' x" e] False by simp
    show ?thesis using 1 2 False by (cases x) auto
  qed
qed


text \<open>
  A batch whose keys are pairwise distinct has the same effect in whatever order its
  operations are issued: the order in which Go iterates a map does not show in the engine.
\<close>

lemma apply_batch_distinct:
  assumes "distinct (map op_key b)" and "x \<in> set b"
  shows "apply_batch b e (op_key x) = apply_op e x (op_key x)"
  using assms
proof (induction b arbitrary: e)
  case Nil
  then show ?case by simp
next
  case (Cons y ys)
  show ?case
  proof (cases "x = y")
    case True
    have "op_key y \<notin> op_key ` set ys" using Cons.prems(1) by simp
    then have "apply_batch ys (apply_op e y) (op_key y) = apply_op e y (op_key y)"
      using apply_batch_key [of ys "apply_op e y" "op_key y" e] by simp
    then show ?thesis using True by simp
  next
    case False
    then have xin: "x \<in> set ys" using Cons.prems(2) by simp
    have d: "distinct (map op_key ys)" using Cons.prems(1) by simp
    have "op_key y \<notin> op_key ` set ys" using Cons.prems(1) by simp
    then have ne: "op_key x \<noteq> op_key y" using xin by (metis image_eqI)
    have "apply_batch ys (apply_op e y) (op_key x) = apply_op (apply_op e y) x (op_key x)"
      using Cons.IH [OF d xin] .
    also have "\<dots> = apply_op e x (op_key x)" by (cases x) auto
    finally show ?thesis by simp
  qed
qed

lemma apply_batch_order_irrelevant:
  assumes "distinct (map op_key b)" and "distinct (map op_key b')" and "set b' = set b"
  shows "apply_batch b' e = apply_batch b e"
proof
  fix k
  show "apply_batch b' e k = apply_batch b e k"
  proof (cases "k \<in> op_key ` set b")
    case True
    then obtain x where x: "x \<in> set b" and k: "k = op_key x" by blast
    have "x \<in> set b'" using x assms(3) by simp
    then show ?thesis
      using apply_batch_distinct [OF assms(1) x, of e] apply_batch_distinct [OF assms(2), of x e] k
      by simp
  next
    case False
    then show ?thesis
      using apply_batch_key [of b e k e] apply_batch_key [of b' e k e] assms(3) by simp
  qed
qed









text \<open>
  Go iterates a map in an order of its own choosing. The batch of WriteByRedo has the same
  effect on the engine for every order in which the four maps of the redo item are
  iterated, as long as the operations issued for each map touch pairwise different keys.
\<close>

lemma map_segment_order:
  assumes "set xs' = set xs"
    and "distinct (map op_key (concat (map f xs)))"
    and "distinct (map op_key (concat (map f xs')))"
  shows "apply_batch (concat (map f xs')) e = apply_batch (concat (map f xs)) e"
proof -
  have "set (concat (map f xs')) = set (concat (map f xs))"
    using assms(1) by simp
  then show ?thesis
    using apply_batch_order_irrelevant [OF assms(2) assms(3)] by simp
qed

lemma WriteByRedo_batch_order_irrelevant:
  assumes "Storage i' = Storage i" and "Code i' = Code i"
    and "set (BalanceMap i') = set (BalanceMap i)"
    and "set (ContractMeta i') = set (ContractMeta i)"
    and "set (VmLogList i') = set (VmLogList i)"
    and "set (CallDepth i') = set (CallDepth i)"
    and "\<forall>j \<in> {i, i'}.
           distinct (map op_key (map (balance_op E addr) (BalanceMap j)))
         \<and> distinct (map op_key (concat (map (redo_meta_ops E) (ContractMeta j))))
         \<and> distinct (map op_key (map (\<lambda>hb. Put (CreateVmLogListKey E (fst hb)) (snd hb)) (VmLogList j)))
         \<and> distinct (map op_key (map (\<lambda>hd. depth_op E (snd hd) (fst hd)) (CallDepth j)))"
  shows "apply_batch (WriteByRedo_batch E addr i') eng = apply_batch (WriteByRedo_batch E addr i) eng"
proof -
  have single: "map g xs = concat (map (\<lambda>x. [g x]) xs)" for g :: "'a \<Rightarrow> op" and xs
    by (induction xs) simp_all
  have b: "apply_batch (map (balance_op E addr) (BalanceMap i')) e
             = apply_batch (map (balance_op E addr) (BalanceMap i)) e" for e
    using map_segment_order [OF assms(3), of "\<lambda>x. [balance_op E addr x]" e] assms(7)
    by (simp flip: single)
  have m: "apply_batch (concat (map (redo_meta_ops E) (ContractMeta i'))) e
             = apply_batch (concat (map (redo_meta_ops E) (ContractMeta i))) e" for e
    using map_segment_order [OF assms(4), of "redo_meta_ops E" e] assms(7) by simp
  have v: "apply_batch (map (\<lambda>hb. Put (CreateVmLogListKey E (fst hb)) (snd hb)) (VmLogList i')) e
             = apply_batch (map (\<lambda>hb. Put (CreateVmLogListKey E (fst hb)) (snd hb)) (VmLogList i)) e"
    for e
    using map_segment_order [OF assms(5), of "\<lambda>hb. [Put (CreateVmLogListKey E (fst hb)) (snd hb)]" e]
      assms(7)
    by (simp flip: single)
  have d: "apply_batch (map (\<lambda>hd. depth_op E (snd hd) (fst hd)) (CallDepth i')) e
             = apply_batch (map (\<lambda>hd. depth_op E (snd hd) (fst hd)) (CallDepth i)) e" for e
    using map_segment_order [OF assms(6), of "\<lambda>hd. [depth_op E (snd hd) (fst hd)]" e] assms(7)
    by (simp flip: single)
  show ?thesis
    unfolding WriteByRedo_batch_def assms(1,2)
    by (simp only: apply_batch_append b m v d)
qed

section \<open>Folding redo items into history rows\<close>





















section \<open>Writing a chunk to the block log\<close>

lemma fm_Write_Inr:
  assumes "fm_Write fm buf = Inr lf"
  shows "fm_log (snd lf) = fm_log fm @ [(fst lf, buf)]"
    and "fst lf = fm_place fm buf"
    and "fm_latest (snd lf) = (fst lf)\<lparr>Offset := Offset (fst lf) + 4 + length buf\<rparr>"
    and "fm_faults (snd lf) = fm_faults fm"
    and "fm_fileSize (snd lf) = fm_fileSize fm"
  using assms by (auto simp: fm_Write_def Let_def split: if_splits)

lemma last_value_snoc:
  "last_value (xs @ [(k, v)]) k' = (if k' = k then Some v else last_value xs k')"
  by (simp add: last_value_def)

lemma last_value_Cons:
  "last_value ((k, v) # xs) k' = (case last_value xs k' of None \<Rightarrow> (if k' = k then Some v else None)
                                    | Some w \<Rightarrow> Some w)"
  by (simp add: last_value_def map_add_def split: option.splits)

lemma write_account_blocks_ok:
  assumes "write_account_blocks C blocks (m, fm) = (None, (m', fm'))"
  shows "\<exists>new. fm_log fm' = fm_log fm @ new
           \<and> map snd new = map (ab_record C) blocks
           \<and> (\<forall>h. m' h = (case last_value (zip (map Hash blocks) (map fst new)) h of
                             None \<Rightarrow> m h | Some l \<Rightarrow> Some l))
           \<and> fm_faults fm' = fm_faults fm \<and> fm_fileSize fm' = fm_fileSize fm
           \<and> (\<forall>b \<in> set blocks. \<exists>buf. ab_Serialize C b = Inr buf)"
  using assms
proof (induction blocks arbitrary: m fm)
  case Nil
  then show ?case by (simp add: last_value_def)
next
  case (Cons b blocks)
  from Cons.prems obtain buf where buf: "ab_Serialize C b = Inr buf"
    by (cases "ab_Serialize C b") auto
  from Cons.prems buf obtain lf where
    lf: "fm_Write fm (makeWriteBytes C (BlockTypeAccountBlock C) buf) = Inr lf"
    by (cases "fm_Write fm (makeWriteBytes C (BlockTypeAccountBlock C) buf)") auto
  have rec: "write_account_blocks C blocks (m(Hash b \<mapsto> fst lf), snd lf) = (None, (m', fm'))"
    using Cons.prems buf lf by simp
  from Cons.IH [OF rec] obtain new where
    n1: "fm_log fm' = fm_log (snd lf) @ new"
    and n2: "map snd new = map (ab_record C) blocks"
    and n3: "\<forall>h. m' h = (case last_value (zip (map Hash blocks) (map fst new)) h of
                             None \<Rightarrow> (m(Hash b \<mapsto> fst lf)) h | Some l \<Rightarrow> Some l)"
    and n4: "fm_faults fm' = fm_faults (snd lf)" "fm_fileSize fm' = fm_fileSize (snd lf)"
    and n5: "\<forall>b \<in> set blocks. \<exists>buf. ab_Serialize C b = Inr buf"
    by blast
  let ?new = "(fst lf, makeWriteBytes C (BlockTypeAccountBlock C) buf) # new"
  have a: "fm_log fm' = fm_log fm @ ?new"
    using n1 fm_Write_Inr(1) [OF lf] by simp
  have b: "map snd ?new = map (ab_record C) (b # blocks)"
    using n2 buf by (simp add: ab_record_def)
  have c: "\<forall>h. m' h = (case last_value (zip (map Hash (b # blocks)) (map fst ?new)) h of
                             None \<Rightarrow> m h | Some l \<Rightarrow> Some l)"
    using n3 by (simp add: last_value_Cons split: option.splits)
  have d: "fm_faults fm' = fm_faults fm" "fm_fileSize fm' = fm_fileSize fm"
    using n4 fm_Write_Inr(4,5) [OF lf] by simp_all
  have e: "\<forall>x \<in> set (b # blocks). \<exists>buf. ab_Serialize C x = Inr buf"
    using n5 buf by simp
  from a b c d e show ?case by blast
qed

lemma map_of_rev_distinct:
  "distinct (map fst xs) \<Longrightarrow> map_of (rev xs) k = map_of xs k"
proof (induction xs)
  case Nil
  show ?case by simp
next
  case (Cons x xs)
  have ih: "map_of (rev xs) k = map_of xs k" using Cons by simp
  have fresh: "map_of xs (fst x) = None"
    using Cons.prems by (simp add: map_of_eq_None_iff)
  show ?case
  proof (cases "k = fst x")
    case True
    then show ?thesis using ih fresh by (simp add: map_add_def)
  next
    case False
    then show ?thesis using ih by (simp add: map_add_def split: option.splits)
  qed
qed

lemma zip_keys: "length ks = length vs \<Longrightarrow> fst ` set (zip ks vs) = set ks"
  by (metis map_fst_zip set_map)

lemma last_value_zip_nth:
  assumes "distinct ks" and "length ks = length vs" and "i < length ks"
  shows "last_value (zip ks vs) (ks ! i) = Some (vs ! i)"
proof -
  have "distinct (map fst (zip ks vs))" using assms(1,2) by simp
  then have "map_of (rev (zip ks vs)) (ks ! i) = map_of (zip ks vs) (ks ! i)"
    by (rule map_of_rev_distinct)
  then show ?thesis
    using map_of_zip_nth [OF assms(2) assms(1)] assms(2,3) by (simp add: last_value_def)
qed

lemma last_value_zip_None:
  assumes "length ks = length vs"
  shows "last_value (zip ks vs) k = None \<longleftrightarrow> k \<notin> set ks"
  using zip_keys [OF assms] by (simp add: last_value_def map_of_eq_None_iff)

lemma BlockDB_Write_ok:
  assumes "BlockDB_Write C ss fm = (Inr (m, sloc), fm')"
  shows "\<exists>sb new. SnapshotBlock ss = Some sb
           \<and> fm_log fm' = fm_log fm @ new @ [(sloc, sb_record C sb)]
           \<and> map snd new = map (ab_record C) (AccountBlocks ss)
           \<and> (\<forall>h. m h = last_value (zip (map Hash (AccountBlocks ss)) (map fst new)) h)
           \<and> (\<exists>buf. sb_Serialize C sb = Inr buf)
           \<and> (\<forall>b \<in> set (AccountBlocks ss). \<exists>buf. ab_Serialize C b = Inr buf)
           \<and> fm_faults fm' = fm_faults fm \<and> fm_fileSize fm' = fm_fileSize fm"
proof -
  obtain e st where w: "write_account_blocks C (AccountBlocks ss) (Map.empty, fm) = (e, st)"
    by (cases "write_account_blocks C (AccountBlocks ss) (Map.empty, fm)") auto
  have e: "e = None" using assms w by (cases e) (simp_all add: BlockDB_Write_def)
  obtain sb where sb: "SnapshotBlock ss = Some sb"
    using assms w e by (cases "SnapshotBlock ss") (simp_all add: BlockDB_Write_def)
  obtain buf where buf: "sb_Serialize C sb = Inr buf"
    using assms w e sb by (cases "sb_Serialize C sb") (simp_all add: BlockDB_Write_def)
  obtain lf where lf: "fm_Write (snd st) (makeWriteBytes C (BlockTypeSnapshotBlock C) buf) = Inr lf"
    using assms w e sb buf
    by (cases "fm_Write (snd st) (makeWriteBytes C (BlockTypeSnapshotBlock C) buf)")
       (simp_all add: BlockDB_Write_def)
  have res: "m = fst st" "sloc = fst lf" "fm' = snd lf"
    using assms w e sb buf lf by (simp_all add: BlockDB_Write_def)
  have w': "write_account_blocks C (AccountBlocks ss) (Map.empty, fm) = (None, (fst st, snd st))"
    using w e by simp
  from write_account_blocks_ok [OF w'] obtain new where
    n1: "fm_log (snd st) = fm_log fm @ new"
    and n2: "map snd new = map (ab_record C) (AccountBlocks ss)"
    and n3: "\<forall>h. fst st h = (case last_value (zip (map Hash (AccountBlocks ss)) (map fst new)) h of
                             None \<Rightarrow> Map.empty h | Some l \<Rightarrow> Some l)"
    and n4: "fm_faults (snd st) = fm_faults fm" "fm_fileSize (snd st) = fm_fileSize fm"
    and n5: "\<forall>b \<in> set (AccountBlocks ss). \<exists>buf. ab_Serialize C b = Inr buf"
    by blast
  have a: "fm_log fm' = fm_log fm @ new @ [(sloc, sb_record C sb)]"
    using fm_Write_Inr(1) [OF lf] n1 res buf by (simp add: sb_record_def)
  have b: "\<forall>h. m h = last_value (zip (map Hash (AccountBlocks ss)) (map fst new)) h"
    using n3 res by (simp split: option.splits)
  have c: "fm_faults fm' = fm_faults fm" "fm_fileSize fm' = fm_fileSize fm"
    using fm_Write_Inr(4,5) [OF lf] n4 res by simp_all
  from sb a n2 b buf n5 c show ?thesis by blast
qed

lemma last_value_zip_SomeD:
  assumes "last_value (zip ks vs) k = Some v"
  shows "\<exists>i < length ks. i < length vs \<and> ks ! i = k \<and> vs ! i = v"
proof -
  have "(k, v) \<in> set (rev (zip ks vs))"
    using assms unfolding last_value_def by (rule map_of_SomeD)
  then have "(k, v) \<in> set (zip ks vs)" by simp
  then show ?thesis unfolding in_set_zip by auto
qed

lemma BlockDB_Write_result:
  assumes "BlockDB_Write C ss fm = (Inr (m, sloc), fm')"
  shows "\<exists>sb. SnapshotBlock ss = Some sb
     \<and> length (fm_log fm') = length (fm_log fm) + length (AccountBlocks ss) + 1
     \<and> take (length (fm_log fm)) (fm_log fm') = fm_log fm
     \<and> (\<forall>i < length (AccountBlocks ss).
          snd (fm_log fm' ! (length (fm_log fm) + i)) = ab_record C (AccountBlocks ss ! i)
        \<and> hd (ab_record C (AccountBlocks ss ! i)) = BlockTypeAccountBlock C)
     \<and> last (fm_log fm') = (sloc, sb_record C sb)
     \<and> hd (sb_record C sb) = BlockTypeSnapshotBlock C
     \<and> dom m = Hash ` set (AccountBlocks ss)
     \<and> (\<forall>h l. m h = Some l \<longrightarrow>
          (\<exists>i < length (AccountBlocks ss). Hash (AccountBlocks ss ! i) = h
             \<and> l = fst (fm_log fm' ! (length (fm_log fm) + i))))
     \<and> (distinct (map Hash (AccountBlocks ss)) \<longrightarrow>
          (\<forall>i < length (AccountBlocks ss).
             m (Hash (AccountBlocks ss ! i)) = Some (fst (fm_log fm' ! (length (fm_log fm) + i))))
        \<and> card (dom m) = length (AccountBlocks ss))"
proof -
  let ?blocks = "AccountBlocks ss"
  let ?n = "length (fm_log fm)"
  from BlockDB_Write_ok [OF assms(1)] obtain sb new where
    sb: "SnapshotBlock ss = Some sb"
    and lg: "fm_log fm' = fm_log fm @ new @ [(sloc, sb_record C sb)]"
    and rc: "map snd new = map (ab_record C) ?blocks"
    and mp: "\<forall>h. m h = last_value (zip (map Hash ?blocks) (map fst new)) h"
    and sbuf: "\<exists>buf. sb_Serialize C sb = Inr buf"
    and abuf: "\<forall>b \<in> set ?blocks. \<exists>buf. ab_Serialize C b = Inr buf"
    by blast
  have len: "length new = length ?blocks"
    using rc by (metis length_map)
  have at: "\<forall>i < length ?blocks. fm_log fm' ! (?n + i) = new ! i"
    using lg len by (simp add: nth_append)
  have l1: "length (fm_log fm') = ?n + length ?blocks + 1"
    using lg len by simp
  have l2: "take ?n (fm_log fm') = fm_log fm"
    using lg by simp
  have l3: "\<forall>i < length ?blocks.
          snd (fm_log fm' ! (?n + i)) = ab_record C (?blocks ! i)
        \<and> hd (ab_record C (?blocks ! i)) = BlockTypeAccountBlock C"
  proof (intro allI impI)
    fix i assume i: "i < length ?blocks"
    have "snd (new ! i) = map snd new ! i" using i len by simp
    then have r: "snd (new ! i) = ab_record C (?blocks ! i)"
      using rc i by simp
    obtain buf where "ab_Serialize C (?blocks ! i) = Inr buf"
      using abuf i by (metis nth_mem)
    then have t: "hd (ab_record C (?blocks ! i)) = BlockTypeAccountBlock C"
      by (simp add: ab_record_def makeWriteBytes_def)
    show "snd (fm_log fm' ! (?n + i)) = ab_record C (?blocks ! i)
        \<and> hd (ab_record C (?blocks ! i)) = BlockTypeAccountBlock C"
      using at i r t by simp
  qed
  have l4: "last (fm_log fm') = (sloc, sb_record C sb)"
    using lg by simp
  have l5: "hd (sb_record C sb) = BlockTypeSnapshotBlock C"
    using sbuf by (auto simp: sb_record_def makeWriteBytes_def)
  have "\<forall>h. (m h = None) = (h \<notin> set (map Hash ?blocks))"
    using mp last_value_zip_None [of "map Hash ?blocks" "map fst new"] len by simp
  then have l6: "dom m = Hash ` set ?blocks"
    by (auto simp: dom_def)
  have l7: "\<forall>h l. m h = Some l \<longrightarrow>
          (\<exists>i < length ?blocks. Hash (?blocks ! i) = h \<and> l = fst (fm_log fm' ! (?n + i)))"
  proof (intro allI impI)
    fix h l assume "m h = Some l"
    then have "last_value (zip (map Hash ?blocks) (map fst new)) h = Some l" using mp by simp
    from last_value_zip_SomeD [OF this] obtain i where
      i: "i < length ?blocks" and k: "map Hash ?blocks ! i = h" and v: "map fst new ! i = l"
      by auto
    have "Hash (?blocks ! i) = h" using i k by simp
    moreover have "l = fst (fm_log fm' ! (?n + i))" using i v at len by simp
    ultimately show "\<exists>i < length ?blocks. Hash (?blocks ! i) = h \<and> l = fst (fm_log fm' ! (?n + i))"
      using i by blast
  qed
  have l8: "distinct (map Hash ?blocks) \<longrightarrow>
          (\<forall>i < length ?blocks. m (Hash (?blocks ! i)) = Some (fst (fm_log fm' ! (?n + i))))
        \<and> card (dom m) = length ?blocks"
  proof
    assume d: "distinct (map Hash ?blocks)"
    have a: "\<forall>i < length ?blocks. m (Hash (?blocks ! i)) = Some (fst (fm_log fm' ! (?n + i)))"
    proof (intro allI impI)
      fix i assume i: "i < length ?blocks"
      have "last_value (zip (map Hash ?blocks) (map fst new)) (map Hash ?blocks ! i)
              = Some (map fst new ! i)"
        using last_value_zip_nth [OF d, of "map fst new" i] i len by simp
      then have "m (Hash (?blocks ! i)) = Some (fst (new ! i))"
        using mp i len by simp
      then show "m (Hash (?blocks ! i)) = Some (fst (fm_log fm' ! (?n + i)))"
        using at i by simp
    qed
    have "card (dom m) = length ?blocks"
      using l6 distinct_card [OF d] by simp
    with a show "(\<forall>i < length ?blocks. m (Hash (?blocks ! i)) = Some (fst (fm_log fm' ! (?n + i))))
        \<and> card (dom m) = length ?blocks" by blast
  qed
  from sb l1 l2 l3 l4 l5 l6 l7 l8 show ?thesis by blast
qed

lemma write_account_blocks_succeeds:
  assumes "\<forall>b \<in> set blocks. \<exists>buf. ab_Serialize C b = Inr buf"
    and "\<forall>j < length blocks. length (fm_log fm) + j \<notin> fm_faults fm"
  shows "fst (write_account_blocks C blocks (m, fm)) = None"
  using assms
proof (induction blocks arbitrary: m fm)
  case Nil
  show ?case by simp
next
  case (Cons b blocks)
  obtain buf where buf: "ab_Serialize C b = Inr buf" using Cons.prems(1) by auto
  have "length (fm_log fm) + 0 \<notin> fm_faults fm" using Cons.prems(2) by blast
  then obtain lf where
    lf: "fm_Write fm (makeWriteBytes C (BlockTypeAccountBlock C) buf) = Inr lf"
    by (simp add: fm_Write_def Let_def)
  have "\<forall>j < length blocks. length (fm_log (snd lf)) + j \<notin> fm_faults (snd lf)"
  proof (intro allI impI)
    fix j assume "j < length blocks"
    then have "length (fm_log fm) + Suc j \<notin> fm_faults fm" using Cons.prems(2) by auto
    then show "length (fm_log (snd lf)) + j \<notin> fm_faults (snd lf)"
      using fm_Write_Inr(1,4) [OF lf] by simp
  qed
  then have "fst (write_account_blocks C blocks (m(Hash b \<mapsto> fst lf), snd lf)) = None"
    using Cons.IH Cons.prems(1) by simp
  then show ?case using buf lf by simp
qed

lemma BlockDB_Write_succeeds:
  assumes "\<forall>b \<in> set (AccountBlocks ss). \<exists>buf. ab_Serialize C b = Inr buf"
    and "SnapshotBlock ss = Some sb" and "sb_Serialize C sb = Inr sbuf"
    and "\<forall>j \<le> length (AccountBlocks ss). length (fm_log fm) + j \<notin> fm_faults fm"
  shows "\<exists>m sloc fm'. BlockDB_Write C ss fm = (Inr (m, sloc), fm')"
proof -
  have f: "\<forall>j < length (AccountBlocks ss). length (fm_log fm) + j \<notin> fm_faults fm"
    using assms(4) by simp
  obtain st where w: "write_account_blocks C (AccountBlocks ss) (Map.empty, fm) = (None, st)"
    using write_account_blocks_succeeds [OF assms(1) f, of Map.empty]
    by (metis prod.collapse)
  then have w': "write_account_blocks C (AccountBlocks ss) (Map.empty, fm) = (None, (fst st, snd st))"
    by simp
  from write_account_blocks_ok [OF w'] obtain new where
    n1: "fm_log (snd st) = fm_log fm @ new"
    and n2: "map snd new = map (ab_record C) (AccountBlocks ss)"
    and n4: "fm_faults (snd st) = fm_faults fm"
    by blast
  have "length new = length (AccountBlocks ss)" using n2 by (metis length_map)
  then have "length (fm_log (snd st)) \<notin> fm_faults (snd st)"
    using n1 n4 assms(4) by simp
  then obtain lf where
    "fm_Write (snd st) (makeWriteBytes C (BlockTypeSnapshotBlock C) sbuf) = Inr lf"
    by (simp add: fm_Write_def Let_def)
  then have "BlockDB_Write C ss fm = (Inr (fst st, fst lf), snd lf)"
    using w assms(2,3) by (simp add: BlockDB_Write_def)
  then show ?thesis by blast
qed

text \<open>
  C6. For a chunk with a snapshot block whose blocks serialize, written to a file manager
  whose device accepts the writes, BlockDB.Write returns its results, and then: the log has
  grown by one record per account block, in the order of the chunk and tagged as account
  blocks, followed by the record of the snapshot block, which is the last record of the
  log and is tagged as snapshot block; the second result is the Location of the snapshot
  record; the returned map has exactly the hashes of the account blocks as keys, and each
  of its entries is the Location of the record of an account block with that hash. When
  the hashes of the account blocks are pairwise different (a hash identifies a block), the
  map holds for each account block the Location of that block's record, one entry per
  block.
\<close>

theorem BlockDB_Write_appends_chunk:
  assumes "\<forall>b \<in> set (AccountBlocks ss). \<exists>buf. ab_Serialize C b = Inr buf"
    and "SnapshotBlock ss = Some sb" and "sb_Serialize C sb = Inr sbuf"
    and "\<forall>j \<le> length (AccountBlocks ss). length (fm_log fm) + j \<notin> fm_faults fm"
  shows "\<exists>m sloc fm'. BlockDB_Write C ss fm = (Inr (m, sloc), fm')
     \<and> length (fm_log fm') = length (fm_log fm) + length (AccountBlocks ss) + 1
     \<and> take (length (fm_log fm)) (fm_log fm') = fm_log fm
     \<and> (\<forall>i < length (AccountBlocks ss).
          snd (fm_log fm' ! (length (fm_log fm) + i)) = ab_record C (AccountBlocks ss ! i)
        \<and> hd (ab_record C (AccountBlocks ss ! i)) = BlockTypeAccountBlock C)
     \<and> last (fm_log fm') = (sloc, sb_record C sb)
     \<and> hd (sb_record C sb) = BlockTypeSnapshotBlock C
     \<and> dom m = Hash ` set (AccountBlocks ss)
     \<and> (\<forall>h l. m h = Some l \<longrightarrow>
          (\<exists>i < length (AccountBlocks ss). Hash (AccountBlocks ss ! i) = h
             \<and> l = fst (fm_log fm' ! (length (fm_log fm) + i))))
     \<and> (distinct (map Hash (AccountBlocks ss)) \<longrightarrow>
          (\<forall>i < length (AccountBlocks ss).
             m (Hash (AccountBlocks ss ! i)) = Some (fst (fm_log fm' ! (length (fm_log fm) + i))))
        \<and> card (dom m) = length (AccountBlocks ss))"
proof -
  from BlockDB_Write_succeeds [OF assms(1,2,3,4)] obtain m sloc fm' where
    w: "BlockDB_Write C ss fm = (Inr (m, sloc), fm')" by blast
  from BlockDB_Write_result [OF w] assms(2) w show ?thesis by auto
qed

lemmas sample_block_db_simps =
  BlockDB_Write_def fm_Write_def fm_place_def makeWriteBytes_def Let_def
  sample_Codec_def sample_chunk_def sample_chunk2_def sample_fm_def sample_ab_def sample_sb_def

theorem BlockDB_Write_appends_chunk_witness:
  "map (ab_Serialize sample_Codec) (AccountBlocks sample_chunk) = [Inr [91], Inr [92]]
   \<and> SnapshotBlock sample_chunk = Some (sample_sb [90])
   \<and> sb_Serialize sample_Codec (sample_sb [90]) = Inr [90]
   \<and> fm_faults sample_fm = {}
   \<and> distinct (map Hash (AccountBlocks sample_chunk))
   \<and> (\<exists>m sloc fm'. BlockDB_Write sample_Codec sample_chunk sample_fm = (Inr (m, sloc), fm')
        \<and> length (fm_log fm') = 3
        \<and> last (fm_log fm') = (sloc, sb_record sample_Codec (sample_sb [90]))
        \<and> dom m = {[91], [92]})"
proof -
  have a: "\<forall>b \<in> set (AccountBlocks sample_chunk). \<exists>buf. ab_Serialize sample_Codec b = Inr buf"
    by (simp add: sample_Codec_def)
  have b: "SnapshotBlock sample_chunk = Some (sample_sb [90])"
    by (simp add: sample_chunk_def)
  have c: "sb_Serialize sample_Codec (sample_sb [90]) = Inr [90]"
    by (simp add: sample_Codec_def sample_sb_def)
  have d: "\<forall>j \<le> length (AccountBlocks sample_chunk). length (fm_log sample_fm) + j \<notin> fm_faults sample_fm"
    by (simp add: sample_fm_def)
  have e: "distinct (map Hash (AccountBlocks sample_chunk))"
    by (simp add: sample_chunk_def sample_ab_def)
  have f: "length (fm_log sample_fm) = 0" "length (AccountBlocks sample_chunk) = 2"
    "Hash ` set (AccountBlocks sample_chunk) = {[91], [92]}"
    by (simp_all add: sample_fm_def sample_chunk_def sample_ab_def)
  from BlockDB_Write_appends_chunk [OF a b c d]
  have "\<exists>m sloc fm'. BlockDB_Write sample_Codec sample_chunk sample_fm = (Inr (m, sloc), fm')
        \<and> length (fm_log fm') = 3
        \<and> last (fm_log fm') = (sloc, sb_record sample_Codec (sample_sb [90]))
        \<and> dom m = {[91], [92]}"
    unfolding f by (elim exE conjE, intro exI conjI) simp_all
  moreover have "map (ab_Serialize sample_Codec) (AccountBlocks sample_chunk) = [Inr [91], Inr [92]]"
    by (simp add: sample_Codec_def sample_chunk_def sample_ab_def)
  moreover have "fm_faults sample_fm = {}" by (simp add: sample_fm_def)
  ultimately show ?thesis using b c e by (intro conjI)
qed

section \<open>Reading the records back\<close>

lemma loc_lt_trans: "loc_lt a b \<Longrightarrow> loc_lt b c \<Longrightarrow> loc_lt a c"
  by (auto simp: loc_lt_def)

lemma loc_lt_irrefl: "\<not> loc_lt a a"
  by (simp add: loc_lt_def)

lemma loc_lt_place:
  assumes "loc_lt l (fm_latest fm)"
  shows "loc_lt l (fm_place fm buf)"
  using assms by (auto simp: fm_place_def loc_lt_def)

lemma fm_Write_wf:
  assumes "fm_wf fm" and "fm_Write fm buf = Inr lf"
  shows "fm_wf (snd lf)"
proof -
  let ?loc = "fm_place fm buf"
  have lg: "fm_log (snd lf) = fm_log fm @ [(?loc, buf)]"
    and lt: "fm_latest (snd lf) = ?loc\<lparr>Offset := Offset ?loc + 4 + length buf\<rparr>"
    using fm_Write_Inr(1,2,3) [OF assms(2)] by simp_all
  have old: "\<forall>l \<in> set (map fst (fm_log fm)). loc_lt l (fm_latest fm)"
    and srt: "sorted_wrt loc_lt (map fst (fm_log fm))"
    using assms(1) by (simp_all add: fm_wf_def list_all_iff)
  have below: "\<forall>l \<in> set (map fst (fm_log fm)). loc_lt l ?loc"
    using old loc_lt_place by blast
  have up: "loc_lt ?loc (fm_latest (snd lf))"
    unfolding lt by (simp add: loc_lt_def)
  have s': "sorted_wrt loc_lt (map fst (fm_log (snd lf)))"
    unfolding lg using srt below by (simp add: sorted_wrt_append)
  have "\<forall>l \<in> set (map fst (fm_log (snd lf))). loc_lt l (fm_latest (snd lf))"
    unfolding lg using below up loc_lt_trans by auto
  then show ?thesis using s' by (simp add: fm_wf_def list_all_iff)
qed

lemma write_account_blocks_wf:
  assumes "fm_wf fm"
  shows "fm_wf (snd (snd (write_account_blocks C blocks (m, fm))))"
  using assms
proof (induction blocks arbitrary: m fm)
  case Nil
  then show ?case by simp
next
  case (Cons b blocks)
  show ?case
  proof (cases "ab_Serialize C b")
    case (Inl e)
    then show ?thesis using Cons.prems by simp
  next
    case (Inr buf)
    note buf = this
    show ?thesis
    proof (cases "fm_Write fm (makeWriteBytes C (BlockTypeAccountBlock C) buf)")
      case (Inl e)
      then show ?thesis using Cons.prems buf by simp
    next
      case (Inr lf)
      have "fm_wf (snd lf)" using fm_Write_wf [OF Cons.prems Inr] .
      from Cons.IH [OF this] show ?thesis using buf Inr by simp
    qed
  qed
qed

lemma BlockDB_Write_wf:
  assumes "fm_wf fm"
  shows "fm_wf (snd (BlockDB_Write C ss fm))"
proof -
  obtain e st where w: "write_account_blocks C (AccountBlocks ss) (Map.empty, fm) = (e, st)"
    by (cases "write_account_blocks C (AccountBlocks ss) (Map.empty, fm)") auto
  have wf: "fm_wf (snd st)"
    using write_account_blocks_wf [OF assms, of C "AccountBlocks ss" Map.empty] w by simp
  show ?thesis
  proof (cases e)
    case (Some err)
    then show ?thesis using w wf by (simp add: BlockDB_Write_def)
  next
    case None
    show ?thesis
    proof (cases "SnapshotBlock ss")
      case None
      then show ?thesis using w wf \<open>e = None\<close> by (simp add: BlockDB_Write_def)
    next
      case (Some sb)
      note sb = this
      show ?thesis
      proof (cases "sb_Serialize C sb")
        case (Inl err)
        then show ?thesis using w wf sb \<open>e = None\<close> by (simp add: BlockDB_Write_def)
      next
        case (Inr buf)
        note buf = this
        show ?thesis
        proof (cases "fm_Write (snd st) (makeWriteBytes C (BlockTypeSnapshotBlock C) buf)")
          case (Inl err)
          then show ?thesis using w wf sb buf \<open>e = None\<close> by (simp add: BlockDB_Write_def)
        next
          case (Inr lf)
          then show ?thesis
            using w sb buf \<open>e = None\<close> fm_Write_wf [OF wf Inr] by (simp add: BlockDB_Write_def)
        qed
      qed
    qed
  qed
qed

lemma sorted_wrt_loc_distinct:
  "sorted_wrt loc_lt ls \<Longrightarrow> distinct ls"
  by (induction ls) (auto simp: loc_lt_irrefl)

lemma fm_wf_distinct: "fm_wf fm \<Longrightarrow> distinct (map fst (fm_log fm))"
  by (simp add: fm_wf_def sorted_wrt_loc_distinct)

lemma fm_lookup_nth:
  assumes "distinct (map fst log)" and "i < length log"
  shows "fm_lookup log (fst (log ! i)) latest
           = Some (snd (log ! i), (if Suc i < length log then fst (log ! Suc i) else latest))"
  using assms
proof (induction log arbitrary: i)
  case Nil
  then show ?case by simp
next
  case (Cons r rs)
  show ?case
  proof (cases i)
    case 0
    then show ?thesis by (cases rs) simp_all
  next
    case (Suc j)
    have j: "j < length rs" using Cons.prems(2) Suc by simp
    have d: "distinct (map fst rs)" using Cons.prems(1) by simp
    have "fst (rs ! j) \<in> fst ` set rs" using j by simp
    moreover have "fst r \<notin> fst ` set rs" using Cons.prems(1) by simp
    ultimately have ne: "fst r \<noteq> fst (rs ! j)" by metis
    show ?thesis using Cons.IH [OF d j] ne Suc by simp
  qed
qed

lemma fm_Read_nth:
  assumes "fm_wf fm" and "i < length (fm_log fm)"
  shows "fm_Read fm (fst (fm_log fm ! i))
           = Inr (snd (fm_log fm ! i),
                  (if Suc i < length (fm_log fm) then fst (fm_log fm ! Suc i) else fm_latest fm))"
  using fm_lookup_nth [OF fm_wf_distinct [OF assms(1)] assms(2), of "fm_latest fm"]
  by (simp add: fm_Read_def)

lemma ReadUnit_account:
  assumes "fm_Read fm loc = Inr (ab_record C ab, next)"
    and "ab_Serialize C ab = Inr buf" and "ab_roundtrip C ab"
    and "BlockTypeAccountBlock C \<noteq> BlockTypeSnapshotBlock C"
  shows "ReadUnit C fm loc = Inr (None, Some ab, next)"
  using assms
  by (simp add: ReadUnit_def ab_record_def ab_roundtrip_def makeWriteBytes_def Let_def)

lemma ReadUnit_snapshot:
  assumes "fm_Read fm loc = Inr (sb_record C sb, next)"
    and "sb_Serialize C sb = Inr buf" and "sb_roundtrip C sb"
  shows "ReadUnit C fm loc = Inr (Some sb, None, next)"
  using assms
  by (simp add: ReadUnit_def sb_record_def sb_roundtrip_def makeWriteBytes_def Let_def)

text \<open>A block whose serializer succeeds.\<close>

lemma read_units_records:
  assumes wf: "fm_wf fm"
    and tags: "BlockTypeAccountBlock C \<noteq> BlockTypeSnapshotBlock C"
    and bound: "i + length bs \<le> length (fm_log fm)"
    and recs: "\<forall>j < length bs. snd (fm_log fm ! (i + j)) = block_record C (bs ! j)"
    and ser: "\<forall>b \<in> set bs. block_record C b \<noteq> []"
    and rt: "\<forall>b \<in> set bs. block_roundtrip C b"
  shows "read_units C fm (if i < length (fm_log fm) then fst (fm_log fm ! i) else fm_latest fm)
           (length bs) = Inr bs"
  using bound recs ser rt
proof (induction bs arbitrary: i)
  case Nil
  show ?case by simp
next
  case (Cons b bs)
  have i: "i < length (fm_log fm)" using Cons.prems(1) by simp
  let ?next = "if Suc i < length (fm_log fm) then fst (fm_log fm ! Suc i) else fm_latest fm"
  have rec: "snd (fm_log fm ! i) = block_record C b"
    using Cons.prems(2) by (metis add.right_neutral length_greater_0_conv list.discI nth_Cons_0)
  have rd: "fm_Read fm (fst (fm_log fm ! i)) = Inr (block_record C b, ?next)"
    using fm_Read_nth [OF wf i] rec by simp
  have b1: "Suc i + length bs \<le> length (fm_log fm)" using Cons.prems(1) by simp
  have b2: "\<forall>j < length bs. snd (fm_log fm ! (Suc i + j)) = block_record C (bs ! j)"
  proof (intro allI impI)
    fix j assume "j < length bs"
    then have "Suc j < length (b # bs)" by simp
    from Cons.prems(2) [rule_format, OF this] show "snd (fm_log fm ! (Suc i + j)) = block_record C (bs ! j)"
      by simp
  qed
  have b3: "\<forall>x \<in> set bs. block_record C x \<noteq> []" and b4: "\<forall>x \<in> set bs. block_roundtrip C x"
    using Cons.prems(3,4) by simp_all
  have ih: "read_units C fm ?next (length bs) = Inr bs"
    using Cons.IH [OF b1 b2 b3 b4] by simp
  have ne: "block_record C b \<noteq> []" and r: "block_roundtrip C b"
    using Cons.prems(3,4) by simp_all
  show ?case
  proof (cases b)
    case (Snapshot sb)
    obtain buf where buf: "sb_Serialize C sb = Inr buf"
      using ne Snapshot by (cases "sb_Serialize C sb") (simp_all add: block_record_def sb_record_def)
    have "ReadUnit C fm (fst (fm_log fm ! i)) = Inr (Some sb, None, ?next)"
      using ReadUnit_snapshot [OF _ buf] rd r Snapshot
      by (simp add: block_record_def block_roundtrip_def)
    then show ?thesis using i ih Snapshot by simp
  next
    case (Account ab)
    obtain buf where buf: "ab_Serialize C ab = Inr buf"
      using ne Account by (cases "ab_Serialize C ab") (simp_all add: block_record_def ab_record_def)
    have "ReadUnit C fm (fst (fm_log fm ! i)) = Inr (None, Some ab, ?next)"
      using ReadUnit_account [OF _ buf _ tags] rd r Account
      by (simp add: block_record_def block_roundtrip_def)
    then show ?thesis using i ih Account by simp
  qed
qed

lemma ab_record_nonempty: "ab_Serialize C b = Inr buf \<Longrightarrow> ab_record C b \<noteq> []"
  by (simp add: ab_record_def makeWriteBytes_def)

lemma sb_record_nonempty: "sb_Serialize C sb = Inr buf \<Longrightarrow> sb_record C sb \<noteq> []"
  by (simp add: sb_record_def makeWriteBytes_def)

lemma write_chunks_ok:
  assumes "write_chunks C chunks fm = Inr fm'"
  shows "\<exists>new. fm_log fm' = fm_log fm @ new
           \<and> map snd new = map (block_record C) (concat (map chunk_blocks chunks))
           \<and> (\<forall>b \<in> set (concat (map chunk_blocks chunks)). block_record C b \<noteq> [])"
  using assms
proof (induction chunks arbitrary: fm)
  case Nil
  then show ?case by simp
next
  case (Cons ss chunks)
  obtain r fm1 where w: "BlockDB_Write C ss fm = (r, fm1)"
    by (cases "BlockDB_Write C ss fm") auto
  obtain m sloc where r: "r = Inr (m, sloc)"
    using Cons.prems w by (cases r) auto
  have rest: "write_chunks C chunks fm1 = Inr fm'"
    using Cons.prems w r by simp
  from BlockDB_Write_ok [OF w [unfolded r]] obtain sb new1 where
    sb: "SnapshotBlock ss = Some sb"
    and lg: "fm_log fm1 = fm_log fm @ new1 @ [(sloc, sb_record C sb)]"
    and rc: "map snd new1 = map (ab_record C) (AccountBlocks ss)"
    and sbuf: "\<exists>buf. sb_Serialize C sb = Inr buf"
    and abuf: "\<forall>b \<in> set (AccountBlocks ss). \<exists>buf. ab_Serialize C b = Inr buf"
    by blast
  from Cons.IH [OF rest] obtain new2 where
    lg2: "fm_log fm' = fm_log fm1 @ new2"
    and rc2: "map snd new2 = map (block_record C) (concat (map chunk_blocks chunks))"
    and ne2: "\<forall>b \<in> set (concat (map chunk_blocks chunks)). block_record C b \<noteq> []"
    by blast
  have cb: "map (block_record C) (chunk_blocks ss) = map (ab_record C) (AccountBlocks ss) @ [sb_record C sb]"
    using sb by (simp add: chunk_blocks_def block_record_def comp_def)
  have ne1: "\<forall>b \<in> set (chunk_blocks ss). block_record C b \<noteq> []"
    using sb sbuf abuf ab_record_nonempty sb_record_nonempty
    by (auto simp: chunk_blocks_def block_record_def)
  let ?new = "new1 @ [(sloc, sb_record C sb)] @ new2"
  have a: "fm_log fm' = fm_log fm @ ?new" using lg lg2 by simp
  have b: "map snd ?new = map (block_record C) (concat (map chunk_blocks (ss # chunks)))"
    using rc rc2 cb by simp
  have c: "\<forall>b \<in> set (concat (map chunk_blocks (ss # chunks))). block_record C b \<noteq> []"
    using ne1 ne2 by auto
  from a b c show ?case by blast
qed

lemma write_chunks_wf:
  assumes "fm_wf fm" and "write_chunks C chunks fm = Inr fm'"
  shows "fm_wf fm'"
  using assms
proof (induction chunks arbitrary: fm)
  case Nil
  then show ?case by simp
next
  case (Cons ss chunks)
  obtain r fm1 where w: "BlockDB_Write C ss fm = (r, fm1)"
    by (cases "BlockDB_Write C ss fm") auto
  obtain x where r: "r = Inr x"
    using Cons.prems(2) w by (cases r) auto
  have rest: "write_chunks C chunks fm1 = Inr fm'"
    using Cons.prems(2) w r by simp
  have "fm_wf fm1" using BlockDB_Write_wf [OF Cons.prems(1), of C ss] w by simp
  from Cons.IH [OF this rest] show ?case .
qed

text \<open>
  C7. After a list of chunks has been written by BlockDB.Write, one chunk after the other,
  to a file manager whose Locations grow in write order, reading as many units as block
  records were written, by ReadUnit from the Location of the first of these records and
  then from the Location each read returns, gives the blocks that were written, in their
  order, provided that the two type tags differ and that for each block the codec
  decompresses what it compressed and the deserializer gives back what was serialized.
\<close>

theorem write_then_read_roundtrip:
  assumes "fm_wf fm"
    and "BlockTypeAccountBlock C \<noteq> BlockTypeSnapshotBlock C"
    and "write_chunks C chunks fm = Inr fm'"
    and "\<forall>b \<in> set (concat (map chunk_blocks chunks)). block_roundtrip C b"
  shows "length (fm_log fm') = length (fm_log fm) + length (concat (map chunk_blocks chunks))
     \<and> read_units C fm' (fst (fm_log fm' ! length (fm_log fm)))
          (length (concat (map chunk_blocks chunks)))
        = Inr (concat (map chunk_blocks chunks))"
proof -
  let ?bs = "concat (map chunk_blocks chunks)"
  let ?n = "length (fm_log fm)"
  from write_chunks_ok [OF assms(3)] obtain new where
    lg: "fm_log fm' = fm_log fm @ new"
    and rc: "map snd new = map (block_record C) ?bs"
    and ne: "\<forall>b \<in> set ?bs. block_record C b \<noteq> []"
    by blast
  have len: "length new = length ?bs" using rc by (metis length_map)
  have l: "length (fm_log fm') = ?n + length ?bs" using lg len by simp
  have wf: "fm_wf fm'" using write_chunks_wf [OF assms(1,3)] .
  have bound: "?n + length ?bs \<le> length (fm_log fm')" using l by simp
  have recs: "\<forall>j < length ?bs. snd (fm_log fm' ! (?n + j)) = block_record C (?bs ! j)"
  proof (intro allI impI)
    fix j assume j: "j < length ?bs"
    have "snd (new ! j) = map snd new ! j" using j len by simp
    then show "snd (fm_log fm' ! (?n + j)) = block_record C (?bs ! j)"
      using lg rc j by (simp add: nth_append)
  qed
  have rd: "read_units C fm' (if ?n < length (fm_log fm') then fst (fm_log fm' ! ?n)
              else fm_latest fm') (length ?bs) = Inr ?bs"
    using read_units_records [OF wf assms(2) bound recs ne assms(4)] .
  have "read_units C fm' (fst (fm_log fm' ! ?n)) (length ?bs) = Inr ?bs"
  proof (cases "length ?bs = 0")
    case True
    then have e: "?bs = []" by (metis length_0_conv)
    show ?thesis unfolding e by simp
  next
    case False
    then have "?n < length (fm_log fm')" using l by linarith
    then show ?thesis using rd by (simp only: if_True)
  qed
  with l show ?thesis by blast
qed

theorem write_then_read_roundtrip_witness:
  "fm_wf sample_fm
   \<and> BlockTypeAccountBlock sample_Codec \<noteq> BlockTypeSnapshotBlock sample_Codec
   \<and> (\<exists>fm'. write_chunks sample_Codec [sample_chunk, sample_chunk2] sample_fm = Inr fm'
        \<and> map fst (fm_log fm') = [\<lparr>FileId = 1, Offset = 0\<rparr>, \<lparr>FileId = 1, Offset = 7\<rparr>,
                                  \<lparr>FileId = 2, Offset = 0\<rparr>, \<lparr>FileId = 2, Offset = 7\<rparr>]
        \<and> read_units sample_Codec fm' \<lparr>FileId = 1, Offset = 0\<rparr> 4
            = Inr [Account (sample_ab [91]), Account (sample_ab [92]),
                   Snapshot (sample_sb [90]), Snapshot (sample_sb [93])])
   \<and> list_all (block_roundtrip sample_Codec)
         (concat (map chunk_blocks [sample_chunk, sample_chunk2]))"
proof -
  have wf: "fm_wf sample_fm" by (simp add: fm_wf_def sample_fm_def)
  have tg: "BlockTypeAccountBlock sample_Codec \<noteq> BlockTypeSnapshotBlock sample_Codec"
    by (simp add: sample_Codec_def)
  obtain fm' where w: "write_chunks sample_Codec [sample_chunk, sample_chunk2] sample_fm = Inr fm'"
    and locs: "map fst (fm_log fm') = [\<lparr>FileId = 1, Offset = 0\<rparr>, \<lparr>FileId = 1, Offset = 7\<rparr>,
                                  \<lparr>FileId = 2, Offset = 0\<rparr>, \<lparr>FileId = 2, Offset = 7\<rparr>]"
    by (simp add: sample_block_db_simps)
  have bs: "concat (map chunk_blocks [sample_chunk, sample_chunk2])
              = [Account (sample_ab [91]), Account (sample_ab [92]),
                 Snapshot (sample_sb [90]), Snapshot (sample_sb [93])]"
    by (simp add: chunk_blocks_def sample_chunk_def sample_chunk2_def)
  have rt: "\<forall>b \<in> set (concat (map chunk_blocks [sample_chunk, sample_chunk2])).
         block_roundtrip sample_Codec b"
    unfolding bs
    by (simp add: block_roundtrip_def ab_roundtrip_def sb_roundtrip_def sample_Codec_def
        sample_ab_def sample_sb_def)
  have first: "fst (fm_log fm' ! length (fm_log sample_fm)) = \<lparr>FileId = 1, Offset = 0\<rparr>"
  proof -
    have "map fst (fm_log fm') ! 0 = \<lparr>FileId = 1, Offset = 0\<rparr>" unfolding locs by simp
    moreover have "0 < length (fm_log fm')" using locs by (metis length_greater_0_conv list.discI list.map_disc_iff)
    ultimately show ?thesis by (simp add: sample_fm_def)
  qed
  have len4: "length [Account (sample_ab [91]), Account (sample_ab [92]),
                   Snapshot (sample_sb [90]), Snapshot (sample_sb [93])] = 4"
    by simp
  from write_then_read_roundtrip [OF wf tg w rt]
  have X: "read_units sample_Codec fm' (fst (fm_log fm' ! length (fm_log sample_fm)))
            (length (concat (map chunk_blocks [sample_chunk, sample_chunk2])))
          = Inr (concat (map chunk_blocks [sample_chunk, sample_chunk2]))"
    by (rule conjunct2)
  have Y: "read_units sample_Codec fm' \<lparr>FileId = 1, Offset = 0\<rparr> 4
            = Inr [Account (sample_ab [91]), Account (sample_ab [92]),
                   Snapshot (sample_sb [90]), Snapshot (sample_sb [93])]"
    using X unfolding bs first len4 .
  have "write_chunks sample_Codec [sample_chunk, sample_chunk2] sample_fm = Inr fm'
        \<and> map fst (fm_log fm') = [\<lparr>FileId = 1, Offset = 0\<rparr>, \<lparr>FileId = 1, Offset = 7\<rparr>,
                                  \<lparr>FileId = 2, Offset = 0\<rparr>, \<lparr>FileId = 2, Offset = 7\<rparr>]
        \<and> read_units sample_Codec fm' \<lparr>FileId = 1, Offset = 0\<rparr> 4
            = Inr [Account (sample_ab [91]), Account (sample_ab [92]),
                   Snapshot (sample_sb [90]), Snapshot (sample_sb [93])]"
    using w locs Y by (intro conjI)
  then have ex: "\<exists>fm'. write_chunks sample_Codec [sample_chunk, sample_chunk2] sample_fm = Inr fm'
        \<and> map fst (fm_log fm') = [\<lparr>FileId = 1, Offset = 0\<rparr>, \<lparr>FileId = 1, Offset = 7\<rparr>,
                                  \<lparr>FileId = 2, Offset = 0\<rparr>, \<lparr>FileId = 2, Offset = 7\<rparr>]
        \<and> read_units sample_Codec fm' \<lparr>FileId = 1, Offset = 0\<rparr> 4
            = Inr [Account (sample_ab [91]), Account (sample_ab [92]),
                   Snapshot (sample_sb [90]), Snapshot (sample_sb [93])]"
    by (rule exI)
  have rt': "list_all (block_roundtrip sample_Codec)
         (concat (map chunk_blocks [sample_chunk, sample_chunk2]))"
    using rt by (simp only: list_all_iff)
  from wf tg ex rt' show ?thesis by (intro conjI)
qed

section \<open>Range reads with a partial trailing chunk\<close>

lemma chunk_loop_append:
  "chunk_loop C (us @ vs) st =
     (case chunk_loop C us st of Inl err \<Rightarrow> Inl err | Inr st' \<Rightarrow> chunk_loop C vs st')"
proof (induction us arbitrary: st)
  case Nil
  show ?case by simp
next
  case (Cons u us)
  show ?case
    by (simp add: Cons.IH Let_def split: sum.splits)
qed

lemma chunk_loop_account_step:
  assumes "BlockTypeAccountBlock C \<noteq> BlockTypeSnapshotBlock C"
    and "account_unit_of C u ab"
  shows "chunk_loop C (u # rest) (segList, seg) =
           chunk_loop C rest (segList,
             Some ((case seg of None \<Rightarrow> \<lparr>SnapshotBlock = None, AccountBlocks = []\<rparr> | Some s \<Rightarrow> s)
               \<lparr>AccountBlocks := AccountBlocks
                  (case seg of None \<Rightarrow> \<lparr>SnapshotBlock = None, AccountBlocks = []\<rparr> | Some s \<Rightarrow> s) @ [ab]\<rparr>))"
proof -
  from assms(2) obtain sBuf where d: "snappy_Decode C (Buffer u) = Inr sBuf"
    and a: "ab_Deserialize C sBuf = Inr ab" and t: "BlockType u = BlockTypeAccountBlock C"
    by (cases "snappy_Decode C (Buffer u)") (auto simp: account_unit_of_def)
  show ?thesis using d a t assms(1) by (simp add: Let_def)
qed

lemma chunk_loop_accounts:
  assumes "BlockTypeAccountBlock C \<noteq> BlockTypeSnapshotBlock C"
    and "list_all2 (account_unit_of C) us blocks"
  shows "chunk_loop C us (segList, Some seg)
           = Inr (segList, Some (seg\<lparr>AccountBlocks := AccountBlocks seg @ blocks\<rparr>))"
  using assms(2)
proof (induction us blocks arbitrary: seg rule: list_all2_induct)
  case Nil
  show ?case by simp
next
  case (Cons u us b blocks)
  show ?case
    unfolding chunk_loop_account_step [OF assms(1) Cons.hyps(1)]
    by (simp add: Cons.IH)
qed

lemma chunk_loop_trailing:
  assumes "BlockTypeAccountBlock C \<noteq> BlockTypeSnapshotBlock C"
    and "list_all2 (account_unit_of C) us blocks" and "us \<noteq> []"
  shows "chunk_loop C us (segList, None)
           = Inr (segList, Some \<lparr>SnapshotBlock = None, AccountBlocks = blocks\<rparr>)"
proof -
  from assms(2,3) obtain u us' b blocks' where
    us: "us = u # us'" and bl: "blocks = b # blocks'"
    and h: "account_unit_of C u b" and t: "list_all2 (account_unit_of C) us' blocks'"
    by (cases us; cases blocks) auto
  show ?thesis
    unfolding us bl chunk_loop_account_step [OF assms(1) h]
    by (simp add: chunk_loop_accounts [OF assms(1) t])
qed

text \<open>
  C10. Let the units delivered by the iterator be units that the loop turns into whole
  chunks (it ends with no chunk open), followed by one or more units that carry the
  account-block tag and decode to account blocks, and let the parser report no error. Then
  ReadRange and PrepareRollback both return, without an error, the whole chunks followed
  by one last chunk that has no snapshot block and holds the trailing account blocks in
  their order.
\<close>

theorem range_read_returns_partial_trailing_chunk:
  assumes "BlockTypeAccountBlock C \<noteq> BlockTypeSnapshotBlock C"
    and "chunk_loop C units ([], None) = Inr (segList, None)"
    and "trailing \<noteq> []"
    and "list_all2 (account_unit_of C) trailing blocks"
  shows "ReadRange C (units @ trailing) None
           = Inr (segList @ [\<lparr>SnapshotBlock = None, AccountBlocks = blocks\<rparr>])
       \<and> PrepareRollback C (units @ trailing) None
           = Inr (segList @ [\<lparr>SnapshotBlock = None, AccountBlocks = blocks\<rparr>])"
proof -
  have "chunk_loop C (units @ trailing) ([], None)
          = Inr (segList, Some \<lparr>SnapshotBlock = None, AccountBlocks = blocks\<rparr>)"
    unfolding chunk_loop_append assms(2)
    using chunk_loop_trailing [OF assms(1,4,3)] by simp
  then show ?thesis by (simp add: ReadRange_def PrepareRollback_def)
qed

theorem range_read_returns_partial_trailing_chunk_witness:
  "BlockTypeAccountBlock sample_Codec \<noteq> BlockTypeSnapshotBlock sample_Codec
   \<and> chunk_loop sample_Codec
        [\<lparr>BlockType = 1, Buffer = [1, 91]\<rparr>, \<lparr>BlockType = 2, Buffer = [1, 90]\<rparr>] ([], None)
       = Inr ([\<lparr>SnapshotBlock = Some (sample_sb [90]), AccountBlocks = [sample_ab [91]]\<rparr>], None)
   \<and> [\<lparr>BlockType = 1, Buffer = [1, 92]\<rparr>] \<noteq> []
   \<and> list_all2 (account_unit_of sample_Codec) [\<lparr>BlockType = 1, Buffer = [1, 92]\<rparr>] [sample_ab [92]]
   \<and> ReadRange sample_Codec
        [\<lparr>BlockType = 1, Buffer = [1, 91]\<rparr>, \<lparr>BlockType = 2, Buffer = [1, 90]\<rparr>,
         \<lparr>BlockType = 1, Buffer = [1, 92]\<rparr>] None
       = Inr [\<lparr>SnapshotBlock = Some (sample_sb [90]), AccountBlocks = [sample_ab [91]]\<rparr>,
              \<lparr>SnapshotBlock = None, AccountBlocks = [sample_ab [92]]\<rparr>]
   \<and> PrepareRollback sample_Codec
        [\<lparr>BlockType = 1, Buffer = [1, 91]\<rparr>, \<lparr>BlockType = 2, Buffer = [1, 90]\<rparr>,
         \<lparr>BlockType = 1, Buffer = [1, 92]\<rparr>] None
       = Inr [\<lparr>SnapshotBlock = Some (sample_sb [90]), AccountBlocks = [sample_ab [91]]\<rparr>,
              \<lparr>SnapshotBlock = None, AccountBlocks = [sample_ab [92]]\<rparr>]"
proof -
  have tg: "BlockTypeAccountBlock sample_Codec \<noteq> BlockTypeSnapshotBlock sample_Codec"
    by (simp add: sample_Codec_def)
  have lp: "chunk_loop sample_Codec
        [\<lparr>BlockType = 1, Buffer = [1, 91]\<rparr>, \<lparr>BlockType = 2, Buffer = [1, 90]\<rparr>] ([], None)
       = Inr ([\<lparr>SnapshotBlock = Some (sample_sb [90]), AccountBlocks = [sample_ab [91]]\<rparr>], None)"
    by (simp add: sample_Codec_def sample_ab_def sample_sb_def Let_def)
  have ne: "[\<lparr>BlockType = 1, Buffer = [1, 92]\<rparr>] \<noteq> ([] :: BlockUnit list)" by simp
  have au: "list_all2 (account_unit_of sample_Codec) [\<lparr>BlockType = 1, Buffer = [1, 92]\<rparr>] [sample_ab [92]]"
    by (simp add: account_unit_of_def sample_Codec_def sample_ab_def)
  from range_read_returns_partial_trailing_chunk [OF tg lp ne au] tg lp ne au
  show ?thesis by simp
qed

section \<open>The staged key-value store\<close>

text \<open>
  C1. For every state of the store whose flushing buffer the batch encoding gives back
  (Load of Dump is the buffer), and every store over a copy of its engine: patching the
  bytes of redoLog() into the copy fails exactly when commit() on the original fails, and
  leaves the copy's engine in the state in which commit() leaves the original's. redoLog()
  itself leaves the store as it is.
\<close>

theorem redo_log_replay_equals_commit:
  assumes "Load D (Dump D (flushingBatch st)) = Inr (flushingBatch st)"
    and "db st' = db st" and "db_fault st' = db_fault st"
  shows "fst (PatchRedoLog D (RedoLog D st) st') = fst (Commit st)
       \<and> db (snd (PatchRedoLog D (RedoLog D st) st')) = db (snd (Commit st))
       \<and> (\<not> db_fault st \<longrightarrow>
            fst (Commit st) = None
          \<and> db (snd (Commit st)) = apply_batch (flushingBatch st) (db st))"
  using assms
  by (simp add: PatchRedoLog_def RedoLog_def Commit_def db_Write_def)

lemmas sample_store_simps =
  sample_Store_def sample_BatchCodec_def WriteDirectly_def Prepare_def CancelPrepare_def
  Commit_def db_Write_def RedoLog_def PatchRedoLog_def

theorem redo_log_replay_equals_commit_witness:
  "Load sample_BatchCodec (Dump sample_BatchCodec
      (flushingBatch (Prepare (WriteDirectly [Put [1] [2], Delete [3], Put [4, 5] []] sample_Store))))
     = Inr (flushingBatch (Prepare (WriteDirectly [Put [1] [2], Delete [3], Put [4, 5] []] sample_Store)))
   \<and> db (sample_Store\<lparr>snapshotBatch := [], flushingBatch := []\<rparr>)
       = db (Prepare (WriteDirectly [Put [1] [2], Delete [3], Put [4, 5] []] sample_Store))
   \<and> db_fault (sample_Store\<lparr>snapshotBatch := [], flushingBatch := []\<rparr>)
       = db_fault (Prepare (WriteDirectly [Put [1] [2], Delete [3], Put [4, 5] []] sample_Store))
   \<and> fst (PatchRedoLog sample_BatchCodec
        (RedoLog sample_BatchCodec
           (Prepare (WriteDirectly [Put [1] [2], Delete [3], Put [4, 5] []] sample_Store)))
        (sample_Store\<lparr>snapshotBatch := [], flushingBatch := []\<rparr>)) = None
   \<and> db (snd (PatchRedoLog sample_BatchCodec
        (RedoLog sample_BatchCodec
           (Prepare (WriteDirectly [Put [1] [2], Delete [3], Put [4, 5] []] sample_Store)))
        (sample_Store\<lparr>snapshotBatch := [], flushingBatch := []\<rparr>)))
      = db (snd (Commit (Prepare (WriteDirectly [Put [1] [2], Delete [3], Put [4, 5] []] sample_Store))))"
proof -
  let ?st = "Prepare (WriteDirectly [Put [1] [2], Delete [3], Put [4, 5] []] sample_Store)"
  let ?st' = "sample_Store\<lparr>snapshotBatch := [], flushingBatch := []\<rparr>"
  have l: "Load sample_BatchCodec (Dump sample_BatchCodec (flushingBatch ?st))
             = Inr (flushingBatch ?st)"
    by (simp add: sample_store_simps)
  have d: "db ?st' = db ?st" and f: "db_fault ?st' = db_fault ?st"
    by (simp_all add: sample_store_simps)
  have nf: "\<not> db_fault ?st" by (simp add: sample_store_simps)
  from redo_log_replay_equals_commit [OF l d f] nf l d f show ?thesis by simp
qed

lemma write_all_eq:
  "write_all ws st = st\<lparr>snapshotBatch := snapshotBatch st @ concat ws\<rparr>"
  by (induction ws arbitrary: st) (simp_all add: WriteDirectly_def)

text \<open>
  C2. Let the store have no flushing buffer in flight, and let writes be merged into
  its pending buffer. Then prepare followed by cancelPrepare gives back the store as it was
  before prepare: the flushing buffer is empty and the pending buffer holds all buffered
  operations in their order. Writes that arrive between prepare and cancelPrepare end up
  behind them, as if prepare had not been called. A following prepare and commit returns
  what it returns, and leaves the engine as it leaves it, when all the writes are issued
  as one batch into the pending buffer.
\<close>

theorem cancel_prepare_undoes_prepare:
  assumes "flushingBatch st0 = []"
  shows "CancelPrepare (Prepare (write_all ws st0)) = write_all ws st0
       \<and> flushingBatch (CancelPrepare (Prepare (write_all ws st0))) = []
       \<and> snapshotBatch (CancelPrepare (Prepare (write_all ws st0))) = snapshotBatch st0 @ concat ws
       \<and> CancelPrepare (write_all ws' (Prepare (write_all ws st0))) = write_all ws' (write_all ws st0)
       \<and> Commit (Prepare (CancelPrepare (write_all ws' (Prepare (write_all ws st0)))))
           = Commit (Prepare (WriteDirectly (concat (ws @ ws')) st0))
       \<and> (\<not> db_fault st0 \<longrightarrow>
            db (snd (Commit (Prepare (CancelPrepare (write_all ws' (Prepare (write_all ws st0)))))))
              = apply_batch (snapshotBatch st0 @ concat (ws @ ws')) (db st0))"
  using assms
  by (simp add: write_all_eq CancelPrepare_def Prepare_def WriteDirectly_def Commit_def db_Write_def)

theorem cancel_prepare_undoes_prepare_witness:
  "flushingBatch sample_Store = []
   \<and> CancelPrepare (Prepare (write_all [[Put [1] [2]], [Delete [1], Put [3] [4]]] sample_Store))
       = write_all [[Put [1] [2]], [Delete [1], Put [3] [4]]] sample_Store
   \<and> snapshotBatch (CancelPrepare (Prepare
        (write_all [[Put [1] [2]], [Delete [1], Put [3] [4]]] sample_Store)))
       = [Put [1] [2], Delete [1], Put [3] [4]]
   \<and> db (snd (Commit (Prepare (CancelPrepare (write_all [[Put [5] [6]]]
        (Prepare (write_all [[Put [1] [2]], [Delete [1], Put [3] [4]]] sample_Store)))))))
       = Map.empty([3] \<mapsto> [4], [5] \<mapsto> [6])"
proof -
  have f: "flushingBatch sample_Store = []" and nf: "\<not> db_fault sample_Store"
    and s: "snapshotBatch sample_Store = []" and d: "db sample_Store = Map.empty([1] \<mapsto> [9])"
    by (simp_all add: sample_Store_def)
  have e: "apply_batch (snapshotBatch sample_Store
              @ concat ([[Put [1] [2]], [Delete [1], Put [3] [4]]] @ [[Put [5] [6]]])) (db sample_Store)
           = Map.empty([3] \<mapsto> [4], [5] \<mapsto> [6])"
    unfolding s d by (simp add: fun_upd_twist)
  have c: "snapshotBatch sample_Store @ concat [[Put [1] [2]], [Delete [1], Put [3] [4]]]
             = [Put [1] [2], Delete [1], Put [3] [4]]"
    unfolding s by simp
  note T = cancel_prepare_undoes_prepare [OF f, of "[[Put [1] [2]], [Delete [1], Put [3] [4]]]"
      "[[Put [5] [6]]]"]
  have t1: "CancelPrepare (Prepare (write_all [[Put [1] [2]], [Delete [1], Put [3] [4]]] sample_Store))
       = write_all [[Put [1] [2]], [Delete [1], Put [3] [4]]] sample_Store"
    using T by blast
  have t3: "snapshotBatch (CancelPrepare (Prepare
        (write_all [[Put [1] [2]], [Delete [1], Put [3] [4]]] sample_Store)))
       = [Put [1] [2], Delete [1], Put [3] [4]]"
    using T unfolding c by blast
  have t6: "db (snd (Commit (Prepare (CancelPrepare (write_all [[Put [5] [6]]]
        (Prepare (write_all [[Put [1] [2]], [Delete [1], Put [3] [4]]] sample_Store)))))))
       = Map.empty([3] \<mapsto> [4], [5] \<mapsto> [6])"
    using T nf unfolding e by blast
  from f t1 t3 t6 show ?thesis by (intro conjI)
qed

end
